theory Spec2Isabelle
  imports Main
begin

section \<open>The routines package: coordination nodes\<close>

text \<open>
  The Go package has two source files with behaviour: the file declaring the
  \<^verbatim>\<open>Routines\<close> interface and its implementation \<^verbatim>\<open>*routines\<close>, and
  \<^verbatim>\<open>service.go\<close>. A \<^verbatim>\<open>*routines\<close> pointer is an address or nil; the structs live in
  a heap indexed by address. An operation either completes, panics, or cannot proceed
  yet (a blocking call whose condition does not hold).
\<close>

type_synonym addr = nat
type_synonym ref = "addr option"

datatype panic = CloseOfClosedChannel | NegativeWaitGroupCounter | NilDereference

datatype 'a outcome = Blocked | Fault panic | Next 'a

definition obind :: "'a outcome \<Rightarrow> ('a \<Rightarrow> 'b outcome) \<Rightarrow> 'b outcome" where
  "obind r f = (case r of Blocked \<Rightarrow> Blocked | Fault x \<Rightarrow> Fault x | Next v \<Rightarrow> f v)"

subsection \<open>Channels and wait groups\<close>

text \<open>
  \<^verbatim>\<open>doneCh\<close> is made by \<^verbatim>\<open>make(chan struct{})\<close> and nothing is ever sent on it, so
  its state is open or closed. Closing a closed channel panics. A receive is ready
  on a closed channel only; on the nil channel it blocks forever.
\<close>

datatype chan = Open | Closed

definition close_chan :: "chan \<Rightarrow> chan outcome" where
  "close_chan c = (case c of Open \<Rightarrow> Next Closed | Closed \<Rightarrow> Fault CloseOfClosedChannel)"

text \<open>
  \<^verbatim>\<open>sync.WaitGroup\<close>: \<^verbatim>\<open>Add(delta)\<close> panics when the counter would become negative,
  \<^verbatim>\<open>Done()\<close> is \<^verbatim>\<open>Add(-1)\<close>, \<^verbatim>\<open>Wait()\<close> blocks until the counter is zero.
\<close>

definition wg_Add :: "int \<Rightarrow> nat \<Rightarrow> nat outcome" where
  "wg_Add delta c = (if int c + delta < 0 then Fault NegativeWaitGroupCounter
                     else Next (nat (int c + delta)))"

definition wg_Done :: "nat \<Rightarrow> nat outcome" where
  "wg_Done c = wg_Add (- 1) c"

definition wg_Wait :: "nat \<Rightarrow> unit outcome" where
  "wg_Wait c = (if c = 0 then Next () else Blocked)"

subsection \<open>The struct and the heap\<close>

record routines =
  doneCh :: chan
  waitgroup :: nat
  parent :: ref
  children :: nat

type_synonym heap = "addr \<Rightarrow> routines"

text \<open>The channel value returned by \<^verbatim>\<open>Done()\<close>: nil, or the \<^verbatim>\<open>doneCh\<close> of a node.\<close>

datatype chanref = NilChan | DoneChOf addr

definition recv_ready :: "heap \<Rightarrow> chanref \<Rightarrow> bool" where
  "recv_ready h c = (case c of NilChan \<Rightarrow> False | DoneChOf a \<Rightarrow> doneCh (h a) = Closed)"

text \<open>The value of the interface type \<^verbatim>\<open>Routines\<close>: the nil interface, or a
  \<^verbatim>\<open>*routines\<close> pointer (itself possibly nil). A method call on the nil interface
  panics; on a pointer it runs the method, which checks its receiver itself.\<close>

datatype Routines = NilRoutines | Impl ref

subsection \<open>Counter helpers: childrenUp, childrenDown\<close>

definition childrenUp :: "ref \<Rightarrow> heap \<Rightarrow> heap outcome" where
  "childrenUp me h = (case me of None \<Rightarrow> Next h
     | Some a \<Rightarrow> obind (wg_Add 1 (children (h a))) (\<lambda>c. Next (h(a := (h a)\<lparr>children := c\<rparr>))))"

definition childrenDown :: "ref \<Rightarrow> heap \<Rightarrow> heap outcome" where
  "childrenDown me h = (case me of None \<Rightarrow> Next h
     | Some a \<Rightarrow> obind (wg_Done (children (h a))) (\<lambda>c. Next (h(a := (h a)\<lparr>children := c\<rparr>))))"

definition waitgroup_Add :: "addr \<Rightarrow> heap \<Rightarrow> heap outcome" where
  "waitgroup_Add a h = obind (wg_Add 1 (waitgroup (h a))) (\<lambda>c. Next (h(a := (h a)\<lparr>waitgroup := c\<rparr>)))"

definition waitgroup_Done :: "addr \<Rightarrow> heap \<Rightarrow> heap outcome" where
  "waitgroup_Done a h = obind (wg_Done (waitgroup (h a))) (\<lambda>c. Next (h(a := (h a)\<lparr>waitgroup := c\<rparr>)))"

subsection \<open>Done and Stop\<close>

definition Done :: "ref \<Rightarrow> chanref" where
  "Done me = (case me of None \<Rightarrow> NilChan | Some a \<Rightarrow> DoneChOf a)"

text \<open>\<^verbatim>\<open>Stop\<close> closes \<^verbatim>\<open>doneCh\<close> under a deferred \<^verbatim>\<open>recover()\<close>: a panic of
  \<^verbatim>\<open>close\<close> is swallowed and the method returns normally, the heap as it was.\<close>

definition Stop :: "ref \<Rightarrow> heap \<Rightarrow> heap outcome" where
  "Stop me h = (case me of None \<Rightarrow> Next h
     | Some a \<Rightarrow> (case close_chan (doneCh (h a)) of
          Next c \<Rightarrow> Next (h(a := (h a)\<lparr>doneCh := c\<rparr>))
        | Fault x \<Rightarrow> Next h
        | Blocked \<Rightarrow> Blocked))"

fun Stop_times :: "nat \<Rightarrow> ref \<Rightarrow> heap \<Rightarrow> heap outcome" where
  "Stop_times 0 me h = Next h"
| "Stop_times (Suc n) me h = obind (Stop me h) (Stop_times n me)"

subsection \<open>Go: the statements run by the caller and by the goroutine\<close>

text \<open>
  \<^verbatim>\<open>Go\<close> runs \<^verbatim>\<open>me.waitgroup.Add(1)\<close>, then \<^verbatim>\<open>me.parent.childrenUp()\<close>, then the
  \<^verbatim>\<open>go\<close> statement. The goroutine defers \<^verbatim>\<open>me.waitgroup.Done()\<close> and
  \<^verbatim>\<open>me.parent.childrenDown()\<close> and calls \<^verbatim>\<open>fn\<close>; when \<^verbatim>\<open>fn\<close> returns or panics
  the deferred calls run last-in first-out. \<open>Go_enter\<close> is what the caller does
  to the counters, \<open>Go_exit\<close> what the deferred calls do.
\<close>

definition Go_enter :: "ref \<Rightarrow> heap \<Rightarrow> heap outcome" where
  "Go_enter me h = (case me of None \<Rightarrow> Next h
     | Some a \<Rightarrow> obind (waitgroup_Add a h) (\<lambda>h1. childrenUp (parent (h1 a)) h1))"

definition Go_exit :: "ref \<Rightarrow> heap \<Rightarrow> heap outcome" where
  "Go_exit me h = (case me of None \<Rightarrow> Next h
     | Some a \<Rightarrow> obind (childrenDown (parent (h a)) h) (\<lambda>h1. waitgroup_Done a h1))"


subsection \<open>Goroutines launched by Go\<close>

text \<open>
  A function passed to \<^verbatim>\<open>Go\<close> is either the closure built by \<^verbatim>\<open>Child\<close>
  (capturing \<^verbatim>\<open>parent, child := me, rv\<close>) or a function of the caller, about which
  nothing is known but that it may return. A launched task records how far the
  statements of \<^verbatim>\<open>Go\<close> and of its goroutine have run:
  \<^item> \<open>GAdded\<close>: \<^verbatim>\<open>me.waitgroup.Add(1)\<close> done, \<^verbatim>\<open>me.parent.childrenUp()\<close> next;
  \<^item> \<open>GUp\<close>: \<^verbatim>\<open>childrenUp\<close> done, the \<^verbatim>\<open>go\<close> statement next;
  \<^item> \<open>GRun\<close>: the goroutine exists and \<^verbatim>\<open>fn\<close> is executing;
  \<^item> \<open>GFwd\<close>: the closure of \<^verbatim>\<open>Child\<close> took the case \<^verbatim>\<open><-parent.Done()\<close>,
    \<^verbatim>\<open>child.Stop()\<close> next;
  \<^item> \<open>GRet\<close>: \<^verbatim>\<open>fn\<close> is over, the deferred \<^verbatim>\<open>me.parent.childrenDown()\<close> next;
  \<^item> \<open>GDown\<close>: the deferred \<^verbatim>\<open>me.waitgroup.Done()\<close> next;
  \<^item> \<open>GExit\<close>: the goroutine has exited.
\<close>

datatype body = Propagate addr addr | UserFn

datatype gpc = GAdded | GUp | GRun | GFwd | GRet | GDown | GExit

record task =
  tnode :: addr
  tbody :: body
  tpc :: gpc

record pool =
  heap :: heap
  nxt :: addr
  tasks :: "task list"

definition NewRoutines :: "pool \<Rightarrow> addr \<times> pool" where
  "NewRoutines p =
     (nxt p, p\<lparr>heap := (heap p)(nxt p := \<lparr>doneCh = Open, waitgroup = 0, parent = None, children = 0\<rparr>),
               nxt := Suc (nxt p)\<rparr>)"

definition Go :: "ref \<Rightarrow> body \<Rightarrow> pool \<Rightarrow> pool outcome" where
  "Go me fn p = (case me of None \<Rightarrow> Next p
     | Some a \<Rightarrow> obind (waitgroup_Add a (heap p))
         (\<lambda>h. Next (p\<lparr>heap := h, tasks := tasks p @ [\<lparr>tnode = a, tbody = fn, tpc = GAdded\<rparr>]\<rparr>)))"

definition Child :: "ref \<Rightarrow> pool \<Rightarrow> (Routines \<times> pool) outcome" where
  "Child me p = (case me of None \<Rightarrow> Next (NilRoutines, p)
     | Some m \<Rightarrow>
        (let (a, p1) = NewRoutines p;
             p2 = p1\<lparr>heap := (heap p1)(a := (heap p1 a)\<lparr>parent := Some m\<rparr>)\<rparr>
         in obind (Go (Some a) (Propagate m a) p2) (\<lambda>p3. Next (Impl (Some a), p3))))"

definition set_pc :: "nat \<Rightarrow> gpc \<Rightarrow> pool \<Rightarrow> pool" where
  "set_pc i q p = p\<lparr>tasks := (tasks p)[i := (tasks p ! i)\<lparr>tpc := q\<rparr>]\<rparr>"

definition task_step :: "nat \<Rightarrow> pool \<Rightarrow> pool outcome" where
  "task_step i p =
     (if length (tasks p) \<le> i then Blocked
      else (let t = tasks p ! i; a = tnode t in
        case tpc t of
          GAdded \<Rightarrow> obind (childrenUp (parent (heap p a)) (heap p))
                      (\<lambda>h. Next (set_pc i GUp (p\<lparr>heap := h\<rparr>)))
        | GUp \<Rightarrow> Next (set_pc i GRun p)
        | GRun \<Rightarrow> Blocked
        | GFwd \<Rightarrow> (case tbody t of
                      Propagate m c \<Rightarrow> obind (Stop (Some c) (heap p))
                                         (\<lambda>h. Next (set_pc i GRet (p\<lparr>heap := h\<rparr>)))
                    | UserFn \<Rightarrow> Blocked)
        | GRet \<Rightarrow> obind (childrenDown (parent (heap p a)) (heap p))
                    (\<lambda>h. Next (set_pc i GDown (p\<lparr>heap := h\<rparr>)))
        | GDown \<Rightarrow> obind (waitgroup_Done a (heap p))
                     (\<lambda>h. Next (set_pc i GExit (p\<lparr>heap := h\<rparr>)))
        | GExit \<Rightarrow> Blocked))"

text \<open>A function of the caller returns (or panics) at a moment of its own choosing.\<close>

definition fn_return :: "nat \<Rightarrow> pool \<Rightarrow> pool outcome" where
  "fn_return i p =
     (if i < length (tasks p) \<and> tpc (tasks p ! i) = GRun \<and> tbody (tasks p ! i) = UserFn
      then Next (set_pc i GRet p) else Blocked)"

text \<open>The \<^verbatim>\<open>select\<close> of the closure of \<^verbatim>\<open>Child\<close>: a case can be taken when its
  receive is ready; when both are, either may be taken.\<close>

definition fn_select :: "nat \<Rightarrow> bool \<Rightarrow> pool \<Rightarrow> pool outcome" where
  "fn_select i parent_case p =
     (if i < length (tasks p) \<and> tpc (tasks p ! i) = GRun
      then (case tbody (tasks p ! i) of
              Propagate m c \<Rightarrow>
                (if parent_case
                 then (if recv_ready (heap p) (Done (Some m)) then Next (set_pc i GFwd p) else Blocked)
                 else (if recv_ready (heap p) (Done (Some c)) then Next (set_pc i GRet p) else Blocked))
            | UserFn \<Rightarrow> Blocked)
      else Blocked)"

subsection \<open>Wait\<close>

datatype wpc = WChildren addr | WOwn addr | WReturned ref

definition Wait_call :: "ref \<Rightarrow> wpc" where
  "Wait_call me = (case me of None \<Rightarrow> WReturned None | Some a \<Rightarrow> WChildren a)"

definition wait_step :: "heap \<Rightarrow> wpc \<Rightarrow> wpc outcome" where
  "wait_step h q = (case q of
       WChildren a \<Rightarrow> obind (wg_Wait (children (h a))) (\<lambda>_. Next (WOwn a))
     | WOwn a \<Rightarrow> obind (wg_Wait (waitgroup (h a))) (\<lambda>_. Next (WReturned (Some a)))
     | WReturned r \<Rightarrow> Blocked)"


section \<open>The service of service.go\<close>

datatype error = NilReceiver | NilArgument | AlreadyStarted | UserError string

text \<open>The \<^verbatim>\<open>start\<close> field: the stub installed by \<^verbatim>\<open>NewService(nil)\<close>, or a function
  of the caller (identified by a number; what it does is up to the caller).\<close>

datatype startfn = Stub | UserStart nat

record service =
  start :: startfn
  mut :: bool
  routines :: Routines

definition NewService :: "nat option \<Rightarrow> service" where
  "NewService arg =
     \<lparr>start = (case arg of None \<Rightarrow> Stub | Some f \<Rightarrow> UserStart f), mut = False, routines = NilRoutines\<rparr>"

text \<open>
  A call of \<^verbatim>\<open>Start\<close> or \<^verbatim>\<open>Stop\<close> in progress, by the statement it runs next.
  For \<^verbatim>\<open>Start\<close>:
  \<^item> \<open>SEntry\<close>: the receiver check and \<^verbatim>\<open>me.mut.Lock()\<close>;
  \<^item> \<open>SLocked\<close>: the test \<^verbatim>\<open>me.routines != nil\<close>, then \<^verbatim>\<open>routines.Child()\<close>;
  \<^item> \<open>SAlready\<close>: returning \<^verbatim>\<open>AlreadyStarted\<close>, the deferred \<^verbatim>\<open>Unlock\<close> next;
  \<^item> \<open>SChild child k\<close>: inside \<^verbatim>\<open>Child()\<close>, which returns once the propagation
    task (number \<open>k\<close>) has been launched;
  \<^item> \<open>SUser child\<close>: \<^verbatim>\<open>me.start(child)\<close> is running;
  \<^item> \<open>SStop child e\<close>: \<^verbatim>\<open>err != nil\<close>, the deferred closure calls \<^verbatim>\<open>child.Stop()\<close> next;
  \<^item> \<open>SWait child e q\<close>: the deferred closure is inside \<^verbatim>\<open>child.Wait()\<close> at \<open>q\<close>;
  \<^item> \<open>SRetErr child e\<close>: the closure is over, the deferred \<^verbatim>\<open>Unlock\<close> next, then \<open>e\<close> is returned;
  \<^item> \<open>SRetOk child\<close>: \<^verbatim>\<open>me.routines = child\<close> done, the deferred \<^verbatim>\<open>Unlock\<close> next;
  \<^item> \<open>SPanic x\<close>: panicking, the deferred \<^verbatim>\<open>Unlock\<close> next.
  For \<^verbatim>\<open>Stop\<close>: \<open>TEntry\<close>, \<open>TLocked\<close> (the test and \<^verbatim>\<open>me.routines.Stop()\<close>),
  \<open>TWait q\<close> (inside \<^verbatim>\<open>me.routines.Wait()\<close>), \<open>TClear\<close> (\<^verbatim>\<open>me.routines = nil\<close>),
  \<open>TUnlock\<close>. \<open>Finished r\<close>: the call is over, with a panic or the returned error.
\<close>

datatype pc =
    SEntry | SLocked | SAlready | SChild Routines nat | SUser Routines
  | SStop Routines error | SWait Routines error wpc | SRetErr Routines error
  | SRetOk Routines | SPanic panic
  | TEntry | TLocked | TWait wpc | TClear | TUnlock
  | Finished "panic + error option"

record call =
  csvc :: "nat option"
  carg :: Routines
  cpc :: pc

record world =
  pool :: pool
  waits :: "wpc list"
  svcs :: "service list"
  calls :: "call list"

definition iface :: "Routines \<Rightarrow> (ref \<Rightarrow> 'a outcome) \<Rightarrow> 'a outcome" where
  "iface r m = (case r of NilRoutines \<Rightarrow> Fault NilDereference | Impl p \<Rightarrow> m p)"

definition set_cpc :: "nat \<Rightarrow> pc \<Rightarrow> world \<Rightarrow> world" where
  "set_cpc i q w = w\<lparr>calls := (calls w)[i := (calls w ! i)\<lparr>cpc := q\<rparr>]\<rparr>"

definition set_mut :: "nat \<Rightarrow> bool \<Rightarrow> world \<Rightarrow> world" where
  "set_mut s b w = w\<lparr>svcs := (svcs w)[s := (svcs w ! s)\<lparr>mut := b\<rparr>]\<rparr>"

definition set_routines :: "nat \<Rightarrow> Routines \<Rightarrow> world \<Rightarrow> world" where
  "set_routines s r w = w\<lparr>svcs := (svcs w)[s := (svcs w ! s)\<lparr>routines := r\<rparr>]\<rparr>"

definition set_heap :: "heap \<Rightarrow> world \<Rightarrow> world" where
  "set_heap h w = w\<lparr>pool := (pool w)\<lparr>heap := h\<rparr>\<rparr>"

definition Lock :: "nat \<Rightarrow> world \<Rightarrow> world outcome" where
  "Lock s w = (if mut (svcs w ! s) then Blocked else Next (set_mut s True w))"

definition Unlock :: "nat \<Rightarrow> world \<Rightarrow> world" where
  "Unlock s w = set_mut s False w"

definition launched :: "gpc \<Rightarrow> bool" where
  "launched q = (q \<noteq> GAdded \<and> q \<noteq> GUp)"

definition Start_step :: "nat \<Rightarrow> nat \<Rightarrow> call \<Rightarrow> world \<Rightarrow> world outcome" where
  "Start_step i s c w = (case cpc c of
      SEntry \<Rightarrow> obind (Lock s w) (\<lambda>w1. Next (set_cpc i SLocked w1))
    | SLocked \<Rightarrow>
        (if routines (svcs w ! s) \<noteq> NilRoutines then Next (set_cpc i SAlready w)
         else (case iface (carg c) (\<lambda>r. Child r (pool w)) of
                 Blocked \<Rightarrow> Blocked
               | Fault x \<Rightarrow> Next (set_cpc i (SPanic x) w)
               | Next (ch, p) \<Rightarrow>
                   Next (set_cpc i (case ch of NilRoutines \<Rightarrow> SUser ch
                                     | Impl r \<Rightarrow> SChild ch (length (tasks (pool w))))
                           (w\<lparr>pool := p\<rparr>))))
    | SAlready \<Rightarrow> Next (set_cpc i (Finished (Inr (Some AlreadyStarted))) (Unlock s w))
    | SChild ch k \<Rightarrow>
        (if k < length (tasks (pool w)) \<and> launched (tpc (tasks (pool w) ! k))
         then Next (set_cpc i (SUser ch) w) else Blocked)
    | SUser ch \<Rightarrow>
        (case start (svcs w ! s) of
           Stub \<Rightarrow> Next (set_cpc i (SStop ch NilArgument) w)
         | UserStart f \<Rightarrow> Blocked)
    | SStop ch e \<Rightarrow>
        (case iface ch (\<lambda>r. obind (Stop r (heap (pool w))) (\<lambda>h. Next (r, h))) of
           Blocked \<Rightarrow> Blocked
         | Fault x \<Rightarrow> Next (set_cpc i (SPanic x) w)
         | Next (r, h) \<Rightarrow> Next (set_cpc i (SWait ch e (Wait_call r)) (set_heap h w)))
    | SWait ch e q \<Rightarrow>
        (case q of
           WReturned r \<Rightarrow> Next (set_cpc i (SRetErr ch e) w)
         | _ \<Rightarrow> obind (wait_step (heap (pool w)) q) (\<lambda>q1. Next (set_cpc i (SWait ch e q1) w)))
    | SRetErr ch e \<Rightarrow> Next (set_cpc i (Finished (Inr (Some e))) (Unlock s w))
    | SRetOk ch \<Rightarrow> Next (set_cpc i (Finished (Inr None)) (Unlock s w))
    | SPanic x \<Rightarrow> Next (set_cpc i (Finished (Inl x)) (Unlock s w))
    | _ \<Rightarrow> Blocked)"

definition Stop_step :: "nat \<Rightarrow> nat \<Rightarrow> call \<Rightarrow> world \<Rightarrow> world outcome" where
  "Stop_step i s c w = (case cpc c of
      TEntry \<Rightarrow> obind (Lock s w) (\<lambda>w1. Next (set_cpc i TLocked w1))
    | TLocked \<Rightarrow>
        (case routines (svcs w ! s) of
           NilRoutines \<Rightarrow> Next (set_cpc i TUnlock w)
         | Impl r \<Rightarrow> obind (Stop r (heap (pool w)))
                      (\<lambda>h. Next (set_cpc i (TWait (Wait_call r)) (set_heap h w))))
    | TWait q \<Rightarrow>
        (case q of
           WReturned r \<Rightarrow> Next (set_cpc i TClear w)
         | _ \<Rightarrow> obind (wait_step (heap (pool w)) q) (\<lambda>q1. Next (set_cpc i (TWait q1) w)))
    | TClear \<Rightarrow> Next (set_cpc i TUnlock (set_routines s NilRoutines w))
    | TUnlock \<Rightarrow> Next (set_cpc i (Finished (Inr None)) (Unlock s w))
    | _ \<Rightarrow> Blocked)"

definition is_Start_pc :: "pc \<Rightarrow> bool" where
  "is_Start_pc q = (case q of
      SEntry \<Rightarrow> True | SLocked \<Rightarrow> True | SAlready \<Rightarrow> True | SChild ch k \<Rightarrow> True
    | SUser ch \<Rightarrow> True | SStop ch e \<Rightarrow> True | SWait ch e q \<Rightarrow> True | SRetErr ch e \<Rightarrow> True
    | SRetOk ch \<Rightarrow> True | SPanic x \<Rightarrow> True | _ \<Rightarrow> False)"

text \<open>The next statement of call \<open>i\<close>. On a nil receiver \<^verbatim>\<open>Start\<close> returns the
  \<^verbatim>\<open>NilReceiver\<close> error and \<^verbatim>\<open>Stop\<close> does nothing; neither touches the mutex.\<close>

definition call_step :: "nat \<Rightarrow> world \<Rightarrow> world outcome" where
  "call_step i w =
     (if length (calls w) \<le> i then Blocked
      else (let c = calls w ! i in
        case csvc c of
          None \<Rightarrow> (case cpc c of
                     SEntry \<Rightarrow> Next (set_cpc i (Finished (Inr (Some NilReceiver))) w)
                   | TEntry \<Rightarrow> Next (set_cpc i (Finished (Inr None)) w)
                   | _ \<Rightarrow> Blocked)
        | Some s \<Rightarrow> (if is_Start_pc (cpc c) then Start_step i s c w else Stop_step i s c w)))"

text \<open>The start function of the caller returns: with nil, \<^verbatim>\<open>me.routines = child\<close>
  follows; with an error, the deferred closure will stop and drain the child.\<close>

definition user_ret :: "nat \<Rightarrow> error option \<Rightarrow> world \<Rightarrow> world outcome" where
  "user_ret i r w =
     (if length (calls w) \<le> i then Blocked
      else (let c = calls w ! i in
        case (csvc c, cpc c) of
          (Some s, SUser ch) \<Rightarrow>
            (case start (svcs w ! s) of
               Stub \<Rightarrow> Blocked
             | UserStart f \<Rightarrow>
                 (case r of
                    None \<Rightarrow> Next (set_cpc i (SRetOk ch) (set_routines s ch w))
                  | Some e \<Rightarrow> Next (set_cpc i (SStop ch e) w)))
        | _ \<Rightarrow> Blocked))"

section \<open>Executions\<close>

text \<open>
  One action is one statement of one thread. The callers of the package (the main
  goroutine, the functions given to \<^verbatim>\<open>Go\<close>, the start functions) may call any
  operation on any node or service they can hold, at any time.
\<close>

datatype action =
    ANewRoutines
  | AChild ref
  | AGo ref
  | AStop ref
  | AWait ref
  | ATask nat
  | AReturn nat
  | ASelect nat bool
  | AWaiter nat
  | ANewService "nat option"
  | AStart "nat option" Routines
  | AStopService "nat option"
  | ACall nat
  | AUserRet nat "error option"

definition valid_ref :: "pool \<Rightarrow> ref \<Rightarrow> bool" where
  "valid_ref p r = (case r of None \<Rightarrow> True | Some a \<Rightarrow> a < nxt p)"

definition valid_arg :: "pool \<Rightarrow> Routines \<Rightarrow> bool" where
  "valid_arg p r = (case r of NilRoutines \<Rightarrow> True | Impl x \<Rightarrow> valid_ref p x)"

definition valid_svc :: "world \<Rightarrow> nat option \<Rightarrow> bool" where
  "valid_svc w me = (case me of None \<Rightarrow> True | Some s \<Rightarrow> s < length (svcs w))"

definition with_pool :: "world \<Rightarrow> pool outcome \<Rightarrow> world outcome" where
  "with_pool w r = obind r (\<lambda>p. Next (w\<lparr>pool := p\<rparr>))"

definition step :: "action \<Rightarrow> world \<Rightarrow> world outcome" where
  "step a w = (case a of
      ANewRoutines \<Rightarrow> Next (w\<lparr>pool := snd (NewRoutines (pool w))\<rparr>)
    | AChild r \<Rightarrow> (if valid_ref (pool w) r
                   then with_pool w (obind (Child r (pool w)) (\<lambda>(ch, p). Next p)) else Blocked)
    | AGo r \<Rightarrow> (if valid_ref (pool w) r then with_pool w (Go r UserFn (pool w)) else Blocked)
    | AStop r \<Rightarrow> (if valid_ref (pool w) r
                  then obind (Stop r (heap (pool w))) (\<lambda>h. Next (set_heap h w)) else Blocked)
    | AWait r \<Rightarrow> (if valid_ref (pool w) r then Next (w\<lparr>waits := waits w @ [Wait_call r]\<rparr>)
                  else Blocked)
    | ATask i \<Rightarrow> with_pool w (task_step i (pool w))
    | AReturn i \<Rightarrow> with_pool w (fn_return i (pool w))
    | ASelect i b \<Rightarrow> with_pool w (fn_select i b (pool w))
    | AWaiter i \<Rightarrow>
        (if i < length (waits w)
         then obind (wait_step (heap (pool w)) (waits w ! i))
                (\<lambda>q. Next (w\<lparr>waits := (waits w)[i := q]\<rparr>))
         else Blocked)
    | ANewService arg \<Rightarrow> Next (w\<lparr>svcs := svcs w @ [NewService arg]\<rparr>)
    | AStart me arg \<Rightarrow>
        (if valid_svc w me \<and> valid_arg (pool w) arg
         then Next (w\<lparr>calls := calls w @ [\<lparr>csvc = me, carg = arg, cpc = SEntry\<rparr>]\<rparr>)
         else Blocked)
    | AStopService me \<Rightarrow>
        (if valid_svc w me
         then Next (w\<lparr>calls := calls w @ [\<lparr>csvc = me, carg = NilRoutines, cpc = TEntry\<rparr>]\<rparr>)
         else Blocked)
    | ACall i \<Rightarrow> call_step i w
    | AUserRet i r \<Rightarrow> user_ret i r w)"

fun run :: "action list \<Rightarrow> world \<Rightarrow> world outcome" where
  "run [] w = Next w"
| "run (a # as) w = obind (step a w) (run as)"

definition init :: world where
  "init = \<lparr>pool = \<lparr>heap = (\<lambda>a. \<lparr>doneCh = Open, waitgroup = 0, parent = None, children = 0\<rparr>),
                   nxt = 0, tasks = []\<rparr>,
           waits = [], svcs = [], calls = []\<rparr>"

definition reaches :: "world \<Rightarrow> world \<Rightarrow> bool" where
  "reaches w w' = (\<exists>as. run as w = Next w')"

definition reachable :: "world \<Rightarrow> bool" where
  "reachable w = reaches init w"


section \<open>Invariants of the pool of nodes and tasks\<close>

text \<open>
  A task is \<open>counted\<close> in the \<^verbatim>\<open>children\<close> counter of its node's parent between its
  \<^verbatim>\<open>childrenUp\<close> and its \<^verbatim>\<open>childrenDown\<close>, and in the \<^verbatim>\<open>waitgroup\<close> counter of
  its node from \<^verbatim>\<open>Add(1)\<close> until its goroutine has exited.
\<close>

definition counted :: "gpc \<Rightarrow> bool" where
  "counted q = (q = GUp \<or> q = GRun \<or> q = GFwd \<or> q = GRet)"

definition past_body :: "gpc \<Rightarrow> bool" where
  "past_body q = (q = GRet \<or> q = GDown \<or> q = GExit)"

definition own_count :: "pool \<Rightarrow> addr \<Rightarrow> nat" where
  "own_count p n = length (filter (\<lambda>t. tnode t = n \<and> tpc t \<noteq> GExit) (tasks p))"

definition child_count :: "pool \<Rightarrow> addr \<Rightarrow> nat" where
  "child_count p n =
     length (filter (\<lambda>t. parent (heap p (tnode t)) = Some n \<and> counted (tpc t)) (tasks p))"

definition task_ok :: "pool \<Rightarrow> task \<Rightarrow> bool" where
  "task_ok p t = (tnode t < nxt p \<and> (case tbody t of
       Propagate m c \<Rightarrow> tnode t = c \<and> parent (heap p c) = Some m
          \<and> (past_body (tpc t) \<longrightarrow> doneCh (heap p c) = Closed)
          \<and> (tpc t = GFwd \<longrightarrow> doneCh (heap p m) = Closed)
     | UserFn \<Rightarrow> tpc t \<noteq> GFwd))"

definition pool_inv :: "pool \<Rightarrow> bool" where
  "pool_inv p = ((\<forall>t\<in>set (tasks p). task_ok p t)
     \<and> (\<forall>a<nxt p. \<forall>m. parent (heap p a) = Some m \<longrightarrow> m < a)
     \<and> (\<forall>n<nxt p. waitgroup (heap p n) = own_count p n \<and> children (heap p n) = child_count p n))"

fun rank :: "gpc \<Rightarrow> nat" where
  "rank GAdded = 0" | "rank GUp = 1" | "rank GRun = 2" | "rank GFwd = 3"
| "rank GRet = 4" | "rank GDown = 5" | "rank GExit = 6"

definition pool_le :: "pool \<Rightarrow> pool \<Rightarrow> bool" where
  "pool_le p q = (nxt p \<le> nxt q \<and> length (tasks p) \<le> length (tasks q)
     \<and> (\<forall>a<nxt p. parent (heap q a) = parent (heap p a)
            \<and> (doneCh (heap p a) = Closed \<longrightarrow> doneCh (heap q a) = Closed))
     \<and> (\<forall>k<length (tasks p). tnode (tasks q ! k) = tnode (tasks p ! k)
            \<and> tbody (tasks q ! k) = tbody (tasks p ! k)
            \<and> rank (tpc (tasks p ! k)) \<le> rank (tpc (tasks q ! k))))"

definition pool_move :: "pool \<Rightarrow> pool \<Rightarrow> bool" where
  "pool_move p q = (q = p \<or> q = snd (NewRoutines p)
     \<or> (\<exists>m ch. m < nxt p \<and> Child (Some m) p = Next (ch, q))
     \<or> (\<exists>a. a < nxt p \<and> Go (Some a) UserFn p = Next q)
     \<or> (\<exists>r h. Stop r (heap p) = Next h \<and> q = p\<lparr>heap := h\<rparr>)
     \<or> (\<exists>i. task_step i p = Next q)
     \<or> (\<exists>i. fn_return i p = Next q)
     \<or> (\<exists>i b. fn_select i b p = Next q))"

definition child_ok :: "pool \<Rightarrow> Routines \<Rightarrow> bool" where
  "child_ok p r = (case r of NilRoutines \<Rightarrow> True
     | Impl x \<Rightarrow> (case x of None \<Rightarrow> False
                   | Some a \<Rightarrow> a < nxt p \<and> parent (heap p a) \<noteq> None))"

definition stopped :: "pool \<Rightarrow> Routines \<Rightarrow> addr \<Rightarrow> bool" where
  "stopped p ch a = (ch = Impl (Some a) \<and> a < nxt p \<and> parent (heap p a) \<noteq> None
                     \<and> doneCh (heap p a) = Closed)"

definition pc_pool_ok :: "pool \<Rightarrow> pc \<Rightarrow> bool" where
  "pc_pool_ok p q = (case q of
      SChild ch k \<Rightarrow> k < length (tasks p)
          \<and> (\<exists>m a. ch = Impl (Some a) \<and> tbody (tasks p ! k) = Propagate m a)
    | SUser ch \<Rightarrow> child_ok p ch
    | SStop ch e \<Rightarrow> child_ok p ch
    | SWait ch e q \<Rightarrow>
        (\<exists>a. stopped p ch a \<and> (q = WChildren a \<or> q = WOwn a \<or> q = WReturned (Some a)))
    | SRetErr ch e \<Rightarrow> (\<exists>a. stopped p ch a)
    | SRetOk ch \<Rightarrow> child_ok p ch
    | _ \<Rightarrow> True)"

definition idle_pc :: "pc \<Rightarrow> bool" where
  "idle_pc q = (case q of SChild ch k \<Rightarrow> True | SUser ch \<Rightarrow> True | SStop ch e \<Rightarrow> True
     | SWait ch e q \<Rightarrow> True | SRetErr ch e \<Rightarrow> True | _ \<Rightarrow> False)"

definition holding :: "pc \<Rightarrow> bool" where
  "holding q = (case q of SEntry \<Rightarrow> False | TEntry \<Rightarrow> False | Finished r \<Rightarrow> False | _ \<Rightarrow> True)"

definition holds :: "world \<Rightarrow> nat \<Rightarrow> nat \<Rightarrow> bool" where
  "holds w i s = (i < length (calls w) \<and> csvc (calls w ! i) = Some s \<and> holding (cpc (calls w ! i)))"

definition call_ok :: "world \<Rightarrow> call \<Rightarrow> bool" where
  "call_ok w c = (valid_svc w (csvc c) \<and> valid_arg (pool w) (carg c) \<and> pc_pool_ok (pool w) (cpc c)
     \<and> (\<forall>s. csvc c = Some s \<and> idle_pc (cpc c) \<longrightarrow> routines (svcs w ! s) = NilRoutines))"

definition svc_ok :: "pool \<Rightarrow> service \<Rightarrow> bool" where
  "svc_ok p s = (child_ok p (routines s) \<and> (start s = Stub \<longrightarrow> routines s = NilRoutines))"

definition mutex_ok :: "world \<Rightarrow> bool" where
  "mutex_ok w = (\<forall>i s. holds w i s \<longrightarrow> mut (svcs w ! s) \<and> (\<forall>j. holds w j s \<longrightarrow> j = i))"

definition world_inv :: "world \<Rightarrow> bool" where
  "world_inv w = (pool_inv (pool w)
     \<and> (\<forall>i<length (calls w). call_ok w (calls w ! i))
     \<and> (\<forall>s<length (svcs w). svc_ok (pool w) (svcs w ! s))
     \<and> mutex_ok w)"

section \<open>Notions of the specification and example executions\<close>

text \<open>The strict ancestors of a node, nearest first: the chain of \<^verbatim>\<open>parent\<close> pointers.
  The package itself never walks this chain; the notion is the specification's. A
  parent is allocated before its child, so the walk is bounded by the address.\<close>

fun spec_ancestors_upto :: "nat \<Rightarrow> heap \<Rightarrow> addr \<Rightarrow> addr list" where
  "spec_ancestors_upto 0 h a = []"
| "spec_ancestors_upto (Suc k) h a =
     (case parent (h a) of None \<Rightarrow> [] | Some m \<Rightarrow> m # spec_ancestors_upto k h m)"

definition spec_strict_ancestors :: "heap \<Rightarrow> addr \<Rightarrow> addr list" where
  "spec_strict_ancestors h a = spec_ancestors_upto a h a"

text \<open>A root (node 0), its child (node 1) and its grandchild (node 2), each
  \<^verbatim>\<open>Child()\<close> call run to its end.\<close>

definition tree3 :: "action list" where
  "tree3 = [ANewRoutines, AChild (Some 0), ATask 0, ATask 0, AChild (Some 1), ATask 1, ATask 1]"

definition wpc_ok :: "pool \<Rightarrow> wpc \<Rightarrow> bool" where
  "wpc_ok p q = (case q of WChildren a \<Rightarrow> a < nxt p | WOwn a \<Rightarrow> a < nxt p | WReturned r \<Rightarrow> True)"

definition waits_ok :: "world \<Rightarrow> bool" where
  "waits_ok w = (\<forall>i<length (waits w). wpc_ok (pool w) (waits w ! i))"

definition grandchild_run :: "action list" where
  "grandchild_run = tree3 @
     [AGo (Some 2), ATask 2, ATask 2,
      AStop (Some 1), ASelect 0 False, ATask 0, ATask 0,
      AWait (Some 0), AWaiter 0, AWaiter 0]"

definition late_child_task_run :: "action list" where
  "late_child_task_run =
     [ANewRoutines, AChild (Some 0), ATask 0, ATask 0,
      AGo (Some 0), ATask 1, ATask 1,
      AStop (Some 1), ASelect 0 False, ATask 0, ATask 0,
      AWait (Some 0), AWaiter 0,
      AGo (Some 1), ATask 2, ATask 2,
      AReturn 1, ATask 1, ATask 1,
      AWaiter 0]"

definition blocked_wait_run :: "action list" where
  "blocked_wait_run = [ANewRoutines, AChild (Some 0), ATask 0, ATask 0, AWait (Some 0)]"

definition idle_wait_run :: "action list" where
  "idle_wait_run = [ANewRoutines, AWait (Some 0), AWaiter 0, AWaiter 0]"

definition prop_next :: "nat \<Rightarrow> world \<Rightarrow> action" where
  "prop_next k w = (if tpc (tasks (pool w) ! k) = GRun then ASelect k True else ATask k)"

fun drive :: "nat \<Rightarrow> nat \<Rightarrow> world \<Rightarrow> world outcome" where
  "drive 0 k w = Next w"
| "drive (Suc n) k w = obind (step (prop_next k w) w) (drive n k)"

fun forwards :: "nat \<Rightarrow> action list \<Rightarrow> world \<Rightarrow> nat" where
  "forwards k [] w = 0"
| "forwards k (a # as) w = (case step a w of
       Next w' \<Rightarrow> (if a = ATask k \<and> tpc (tasks (pool w) ! k) = GFwd then 1 else 0)
                    + forwards k as w'
     | _ \<Rightarrow> 0)"

definition result_of :: "world outcome \<Rightarrow> world" where
  "result_of r = (case r of Next w \<Rightarrow> w | _ \<Rightarrow> init)"

definition completes :: "world outcome \<Rightarrow> bool" where
  "completes r = (case r of Next w \<Rightarrow> True | _ \<Rightarrow> False)"

definition show_task :: "task \<Rightarrow> addr \<times> body \<times> gpc" where
  "show_task t = (tnode t, tbody t, tpc t)"

definition stopped_root_run :: "action list" where
  "stopped_root_run = [ANewRoutines, AChild (Some 0), ATask 0, ATask 0, AStop (Some 0)]"

definition second_start_run :: "action list" where
  "second_start_run =
     [ANewService (Some 7), ANewRoutines, AStart (Some 0) (Impl (Some 0)),
      ACall 0, ACall 0, ATask 0, ATask 0, ACall 0, AUserRet 0 None, ACall 0,
      AStart (Some 0) (Impl (Some 0)), ACall 1]"
















section \<open>Basic facts\<close>

lemma obind_Next [simp]: "obind (Next v) f = f v"
  by (simp add: obind_def)

lemma obind_Fault [simp]: "obind (Fault x) f = Fault x"
  by (simp add: obind_def)

lemma obind_Blocked [simp]: "obind Blocked f = Blocked"
  by (simp add: obind_def)

lemma obind_eq_Next: "obind r f = Next v \<longleftrightarrow> (\<exists>u. r = Next u \<and> f u = Next v)"
  by (cases r) auto

lemma wg_Add_1 [simp]: "wg_Add 1 c = Next (Suc c)"
  by (simp add: wg_Add_def)

lemma wg_Done_Suc [simp]: "wg_Done (Suc c) = Next c"
  by (simp add: wg_Done_def wg_Add_def)

lemma wg_Done_0 [simp]: "wg_Done 0 = Fault NegativeWaitGroupCounter"
  by (simp add: wg_Done_def wg_Add_def)

lemma childrenUp_simps [simp]:
  "childrenUp None h = Next h"
  "childrenUp (Some a) h = Next (h(a := (h a)\<lparr>children := Suc (children (h a))\<rparr>))"
  by (simp_all add: childrenUp_def)

lemma waitgroup_Add_simp [simp]:
  "waitgroup_Add a h = Next (h(a := (h a)\<lparr>waitgroup := Suc (waitgroup (h a))\<rparr>))"
  by (simp add: waitgroup_Add_def)

lemma Stop_None [simp]: "Stop None h = Next h"
  by (simp add: Stop_def)

lemma Stop_Some [simp]: "Stop (Some a) h = Next (h(a := (h a)\<lparr>doneCh := Closed\<rparr>))"
  by (cases "doneCh (h a)") (auto simp: Stop_def close_chan_def fun_eq_iff)

lemma Stop_twice: "obind (Stop me h) (Stop me) = Stop me h"
  by (cases me) simp_all

lemma Stop_total: "\<exists>h'. Stop me h = Next h'"
  by (cases me) simp_all

lemma Stop_times_fix: "Stop me h = Next h \<Longrightarrow> Stop_times n me h = Next h"
  by (induction n) simp_all

subsection \<open>Go and its deferred calls on the counters\<close>

lemma Go_enter_Some:
  "Go_enter (Some a) h =
     Next (case parent (h a) of
             None \<Rightarrow> h(a := (h a)\<lparr>waitgroup := Suc (waitgroup (h a))\<rparr>)
           | Some m \<Rightarrow> (h(a := (h a)\<lparr>waitgroup := Suc (waitgroup (h a))\<rparr>))
                 (m := ((h(a := (h a)\<lparr>waitgroup := Suc (waitgroup (h a))\<rparr>)) m)
                         \<lparr>children := Suc (children (h m))\<rparr>))"
  by (cases "parent (h a)") (auto simp: Go_enter_def)

lemma Go_enter_total: "\<exists>h1. Go_enter (Some a) h = Next h1"
  by (simp add: Go_enter_Some)

lemma Go_enter_fields:
  assumes "Go_enter (Some a) h = Next h1"
  shows "waitgroup (h1 x) = waitgroup (h x) + (if x = a then 1 else 0)"
    and "children (h1 x) = children (h x) + (if parent (h a) = Some x then 1 else 0)"
    and "doneCh (h1 x) = doneCh (h x)"
    and "parent (h1 x) = parent (h x)"
  using assms unfolding Go_enter_Some by (auto split: option.splits)

lemma Go_exit_enter:
  assumes "Go_enter (Some a) h = Next h1"
  shows "Go_exit (Some a) h1 = Next h"
proof (cases "parent (h a)")
  case None
  then have "h1 = h(a := (h a)\<lparr>waitgroup := Suc (waitgroup (h a))\<rparr>)"
    using assms unfolding Go_enter_Some by simp
  then show ?thesis using None
    by (simp add: Go_exit_def childrenDown_def waitgroup_Done_def)
next
  case (Some m)
  then have "h1 = (h(a := (h a)\<lparr>waitgroup := Suc (waitgroup (h a))\<rparr>))
                 (m := ((h(a := (h a)\<lparr>waitgroup := Suc (waitgroup (h a))\<rparr>)) m)
                         \<lparr>children := Suc (children (h m))\<rparr>)"
    using assms unfolding Go_enter_Some by simp
  then show ?thesis using Some
    by (cases "m = a") (simp_all add: Go_exit_def childrenDown_def waitgroup_Done_def fun_eq_iff)
qed

section \<open>The counters count the tasks\<close>

lemma len_filter_upd:
  "i < length xs \<Longrightarrow>
   length (filter P (xs[i := y])) + (if P (xs ! i) then 1 else 0)
     = length (filter P xs) + (if P y then 1 else 0)"
proof (induction xs arbitrary: i)
  case Nil
  then show ?case by simp
next
  case (Cons x xs)
  then show ?case by (cases i) auto
qed

lemma len_filter_upd_same:
  "i < length xs \<Longrightarrow> P y = P (xs ! i) \<Longrightarrow> length (filter P (xs[i := y])) = length (filter P xs)"
  using len_filter_upd [of i xs P y] by (simp split: if_splits)

lemma len_filter_upd_drop:
  "i < length xs \<Longrightarrow> P (xs ! i) \<Longrightarrow> \<not> P y \<Longrightarrow>
   Suc (length (filter P (xs[i := y]))) = length (filter P xs)"
  using len_filter_upd [of i xs P y] by simp

lemma len_filter_upd_add:
  "i < length xs \<Longrightarrow> \<not> P (xs ! i) \<Longrightarrow> P y \<Longrightarrow>
   length (filter P (xs[i := y])) = Suc (length (filter P xs))"
  using len_filter_upd [of i xs P y] by simp

lemma len_filter_cong:
  "(\<And>x. x \<in> set xs \<Longrightarrow> P x = Q x) \<Longrightarrow> length (filter P xs) = length (filter Q xs)"
  by (induction xs) auto

lemma len_filter_none:
  "(\<And>x. x \<in> set xs \<Longrightarrow> \<not> P x) \<Longrightarrow> length (filter P xs) = 0"
  by (induction xs) auto


lemma own_count_cong: "tasks q = tasks p \<Longrightarrow> own_count q n = own_count p n"
  by (simp add: own_count_def)

lemma child_count_cong:
  assumes "tasks q = tasks p"
    and "\<And>t. t \<in> set (tasks p) \<Longrightarrow> parent (heap q (tnode t)) = parent (heap p (tnode t))"
  shows "child_count q n = child_count p n"
  unfolding child_count_def assms(1)
  by (rule len_filter_cong) (simp add: assms(2))

lemma own_count_append:
  "tasks q = tasks p @ [t] \<Longrightarrow>
   own_count q n = own_count p n + (if tnode t = n \<and> tpc t \<noteq> GExit then 1 else 0)"
  by (simp add: own_count_def)

lemma child_count_append:
  assumes "tasks q = tasks p @ [t]"
    and "\<And>t. t \<in> set (tasks p) \<Longrightarrow> parent (heap q (tnode t)) = parent (heap p (tnode t))"
  shows "child_count q n = child_count p n
           + (if parent (heap q (tnode t)) = Some n \<and> counted (tpc t) then 1 else 0)"
proof -
  have "length (filter (\<lambda>t. parent (heap q (tnode t)) = Some n \<and> counted (tpc t)) (tasks p))
      = child_count p n"
    unfolding child_count_def by (rule len_filter_cong) (simp add: assms(2))
  then show ?thesis by (simp add: child_count_def assms(1))
qed

lemma own_count_set_pc:
  assumes "i < length (tasks p)" and "tasks q = (tasks p)[i := (tasks p ! i)\<lparr>tpc := c\<rparr>]"
  shows "own_count q n + (if tnode (tasks p ! i) = n \<and> tpc (tasks p ! i) \<noteq> GExit then 1 else 0)
       = own_count p n + (if tnode (tasks p ! i) = n \<and> c \<noteq> GExit then 1 else 0)"
  unfolding own_count_def assms(2)
  using len_filter_upd [OF assms(1), of "\<lambda>t. tnode t = n \<and> tpc t \<noteq> GExit" "(tasks p ! i)\<lparr>tpc := c\<rparr>"]
  by simp

lemma child_count_set_pc:
  assumes "i < length (tasks p)" and "tasks q = (tasks p)[i := (tasks p ! i)\<lparr>tpc := c\<rparr>]"
    and "\<And>t. t \<in> set (tasks p) \<Longrightarrow> parent (heap q (tnode t)) = parent (heap p (tnode t))"
  shows "child_count q n
           + (if parent (heap p (tnode (tasks p ! i))) = Some n \<and> counted (tpc (tasks p ! i)) then 1 else 0)
       = child_count p n
           + (if parent (heap p (tnode (tasks p ! i))) = Some n \<and> counted c then 1 else 0)"
proof -
  let ?P = "\<lambda>t. parent (heap p (tnode t)) = Some n \<and> counted (tpc t)"
  have "set (tasks q) \<subseteq> insert ((tasks p ! i)\<lparr>tpc := c\<rparr>) (set (tasks p))"
    unfolding assms(2) by (rule set_update_subset_insert)
  moreover have "tasks p ! i \<in> set (tasks p)" using assms(1) by simp
  ultimately have "\<And>t. t \<in> set (tasks q) \<Longrightarrow>
      parent (heap q (tnode t)) = parent (heap p (tnode t))"
    using assms(3) by fastforce
  then have "child_count q n = length (filter ?P (tasks q))"
    unfolding child_count_def by (intro len_filter_cong) simp
  then show ?thesis
    unfolding assms(2) child_count_def
    using len_filter_upd [OF assms(1), of ?P "(tasks p ! i)\<lparr>tpc := c\<rparr>"]
    by simp
qed

lemma own_count_fresh:
  "(\<And>t. t \<in> set (tasks p) \<Longrightarrow> tnode t \<noteq> n) \<Longrightarrow> own_count p n = 0"
  unfolding own_count_def by (rule len_filter_none) auto

lemma child_count_fresh:
  "(\<And>t. t \<in> set (tasks p) \<Longrightarrow> parent (heap p (tnode t)) \<noteq> Some n) \<Longrightarrow> child_count p n = 0"
  unfolding child_count_def by (rule len_filter_none) auto

lemma pool_invD:
  assumes "pool_inv p"
  shows "\<And>t. t \<in> set (tasks p) \<Longrightarrow> task_ok p t"
    and "\<And>t. t \<in> set (tasks p) \<Longrightarrow> tnode t < nxt p"
    and "\<And>a m. a < nxt p \<Longrightarrow> parent (heap p a) = Some m \<Longrightarrow> m < a"
    and "\<And>n. n < nxt p \<Longrightarrow> waitgroup (heap p n) = own_count p n"
    and "\<And>n. n < nxt p \<Longrightarrow> children (heap p n) = child_count p n"
  using assms by (auto simp: pool_inv_def task_ok_def)

lemma pool_invI:
  assumes "\<And>t. t \<in> set (tasks p) \<Longrightarrow> task_ok p t"
    and "\<And>a m. a < nxt p \<Longrightarrow> parent (heap p a) = Some m \<Longrightarrow> m < a"
    and "\<And>n. n < nxt p \<Longrightarrow> waitgroup (heap p n) = own_count p n"
    and "\<And>n. n < nxt p \<Longrightarrow> children (heap p n) = child_count p n"
  shows "pool_inv p"
  using assms by (auto simp: pool_inv_def)

lemma task_ok_frame:
  assumes "task_ok p t" and "nxt p \<le> nxt q"
    and "\<And>a. a < nxt p \<Longrightarrow> parent (heap q a) = parent (heap p a)"
    and "\<And>a. a < nxt p \<Longrightarrow> doneCh (heap p a) = Closed \<Longrightarrow> doneCh (heap q a) = Closed"
    and "\<And>a m. a < nxt p \<Longrightarrow> parent (heap p a) = Some m \<Longrightarrow> m < a"
  shows "task_ok q t"
proof (cases "tbody t")
  case UserFn
  then show ?thesis using assms(1,2) by (simp add: task_ok_def)
next
  case (Propagate m c)
  then have c: "c < nxt p" "parent (heap p c) = Some m" using assms(1) by (auto simp: task_ok_def)
  then have "m < nxt p" using assms(5) by fastforce
  then show ?thesis using assms(1-4) Propagate c
    by (auto simp: task_ok_def)
qed

lemma pool_inv_NewRoutines:
  assumes "pool_inv p"
  shows "pool_inv (snd (NewRoutines p))"
proof (rule pool_invI)
  let ?q = "snd (NewRoutines p)"
  note inv = pool_invD [OF assms]
  have tq: "tasks ?q = tasks p" by (simp add: NewRoutines_def)
  have h: "\<And>a. a < nxt p \<Longrightarrow> heap ?q a = heap p a"
    by (simp add: NewRoutines_def)
  have nq: "nxt ?q = Suc (nxt p)" by (simp add: NewRoutines_def)
  have hn: "heap ?q (nxt p) = \<lparr>doneCh = Open, waitgroup = 0, parent = None, children = 0\<rparr>"
    by (simp add: NewRoutines_def)
  show "task_ok ?q t" if "t \<in> set (tasks ?q)" for t
    using that inv(1,3) h nq unfolding tq by (intro task_ok_frame [of p t ?q]) auto
  show "m < a" if "a < nxt ?q" "parent (heap ?q a) = Some m" for a m
    using that inv(3) h hn nq by (cases "a = nxt p") auto
  have oc: "\<And>n. own_count ?q n = own_count p n"
    by (rule own_count_cong) (rule tq)
  have cc: "\<And>n. child_count ?q n = child_count p n"
    by (rule child_count_cong [OF tq]) (use inv(2) h in auto)
  have fresh_own: "own_count p (nxt p) = 0"
    by (rule own_count_fresh) (use inv(2) in fastforce)
  have fresh_ch: "child_count p (nxt p) = 0"
    by (rule child_count_fresh) (use inv(2,3) in fastforce)
  show "waitgroup (heap ?q n) = own_count ?q n" if "n < nxt ?q" for n
    using that inv(4) h hn nq fresh_own unfolding oc by (cases "n = nxt p") auto
  show "children (heap ?q n) = child_count ?q n" if "n < nxt ?q" for n
    using that inv(5) h hn nq fresh_ch unfolding cc by (cases "n = nxt p") auto
qed


lemma wg_Done_eq_Next: "wg_Done c = Next d \<longleftrightarrow> c = Suc d"
  by (cases c) auto

lemma childrenDown_eq_Next:
  "childrenDown me h = Next h' \<longleftrightarrow>
     (case me of None \<Rightarrow> h' = h
      | Some a \<Rightarrow> \<exists>d. children (h a) = Suc d \<and> h' = h(a := (h a)\<lparr>children := d\<rparr>))"
  by (auto simp: childrenDown_def obind_eq_Next wg_Done_eq_Next split: option.splits)

lemma waitgroup_Done_eq_Next:
  "waitgroup_Done a h = Next h' \<longleftrightarrow>
     (\<exists>d. waitgroup (h a) = Suc d \<and> h' = h(a := (h a)\<lparr>waitgroup := d\<rparr>))"
  by (auto simp: waitgroup_Done_def obind_eq_Next wg_Done_eq_Next)

lemma Go_Some:
  "Go (Some a) fn p =
     Next (p\<lparr>heap := (heap p)(a := (heap p a)\<lparr>waitgroup := Suc (waitgroup (heap p a))\<rparr>),
             tasks := tasks p @ [\<lparr>tnode = a, tbody = fn, tpc = GAdded\<rparr>]\<rparr>)"
  by (simp add: Go_def)

lemma Child_Some:
  "Child (Some m) p =
     Next (Impl (Some (nxt p)),
           p\<lparr>heap := (heap p)(nxt p := \<lparr>doneCh = Open, waitgroup = Suc 0, parent = Some m, children = 0\<rparr>),
             nxt := Suc (nxt p),
             tasks := tasks p @ [\<lparr>tnode = nxt p, tbody = Propagate m (nxt p), tpc = GAdded\<rparr>]\<rparr>)"
  by (simp add: Child_def NewRoutines_def Go_def)

lemma pool_inv_Go:
  assumes "pool_inv p" and "a < nxt p" and "Go (Some a) UserFn p = Next q"
  shows "pool_inv q"
proof (rule pool_invI)
  note inv = pool_invD [OF assms(1)]
  let ?t = "\<lparr>tnode = a, tbody = UserFn, tpc = GAdded\<rparr>"
  have q: "q = p\<lparr>heap := (heap p)(a := (heap p a)\<lparr>waitgroup := Suc (waitgroup (heap p a))\<rparr>),
             tasks := tasks p @ [?t]\<rparr>"
    using assms(3) unfolding Go_Some by simp
  have tq: "tasks q = tasks p @ [?t]" and nq: "nxt q = nxt p" by (simp_all add: q)
  have par: "\<And>x. parent (heap q x) = parent (heap p x)" by (simp add: q)
  have dc: "\<And>x. doneCh (heap q x) = doneCh (heap p x)" by (simp add: q)
  show "task_ok q t" if "t \<in> set (tasks q)" for t
  proof (cases "t = ?t")
    case True
    then show ?thesis using assms(2) by (simp add: task_ok_def nq)
  next
    case False
    then have "t \<in> set (tasks p)" using that tq by simp
    then show ?thesis using inv(1,3) par dc nq by (intro task_ok_frame [of p t q]) auto
  qed
  show "m < x" if "x < nxt q" "parent (heap q x) = Some m" for x m
    using that inv(3) par nq by simp
  have wq: "\<And>n. waitgroup (heap q n) = waitgroup (heap p n) + (if n = a then 1 else 0)"
    and chq: "\<And>n. children (heap q n) = children (heap p n)"
    by (simp_all add: q)
  show "waitgroup (heap q n) = own_count q n" if "n < nxt q" for n
    using that inv(4) [of n] own_count_append [OF tq, of n] nq wq by simp
  show "children (heap q n) = child_count q n" if "n < nxt q" for n
    using that inv(5) [of n] child_count_append [OF tq, of n] par nq chq
    by (simp add: counted_def)
qed

lemma pool_inv_Child:
  assumes "pool_inv p" and "m < nxt p" and "Child (Some m) p = Next (ch, q)"
  shows "pool_inv q"
proof (rule pool_invI)
  note inv = pool_invD [OF assms(1)]
  let ?t = "\<lparr>tnode = nxt p, tbody = Propagate m (nxt p), tpc = GAdded\<rparr>"
  have q: "q = p\<lparr>heap := (heap p)(nxt p := \<lparr>doneCh = Open, waitgroup = Suc 0, parent = Some m, children = 0\<rparr>),
             nxt := Suc (nxt p), tasks := tasks p @ [?t]\<rparr>"
    using assms(3) unfolding Child_Some by simp
  have tq: "tasks q = tasks p @ [?t]" and nq: "nxt q = Suc (nxt p)" by (simp_all add: q)
  have h: "\<And>x. x < nxt p \<Longrightarrow> heap q x = heap p x" by (simp add: q)
  have hn: "heap q (nxt p) = \<lparr>doneCh = Open, waitgroup = Suc 0, parent = Some m, children = 0\<rparr>"
    by (simp add: q)
  have old: "\<And>t. t \<in> set (tasks p) \<Longrightarrow> parent (heap q (tnode t)) = parent (heap p (tnode t))"
    using inv(2) h by simp
  show "task_ok q t" if "t \<in> set (tasks q)" for t
  proof (cases "t = ?t")
    case True
    then show ?thesis using hn by (simp add: task_ok_def nq past_body_def)
  next
    case False
    then have "t \<in> set (tasks p)" using that tq by simp
    then show ?thesis using inv(1,3) h nq by (intro task_ok_frame [of p t q]) auto
  qed
  show "k < x" if "x < nxt q" "parent (heap q x) = Some k" for x k
    using that inv(3) h hn nq assms(2) by (cases "x = nxt p") auto
  have fresh_own: "own_count p (nxt p) = 0"
    by (rule own_count_fresh) (use inv(2) in fastforce)
  have fresh_ch: "child_count p (nxt p) = 0"
    by (rule child_count_fresh) (use inv(2,3) in fastforce)
  show "waitgroup (heap q n) = own_count q n" if "n < nxt q" for n
    using that inv(4) [of n] own_count_append [OF tq, of n] h hn nq fresh_own
    by (cases "n = nxt p") auto
  show "children (heap q n) = child_count q n" if "n < nxt q" for n
    using that inv(5) [of n] child_count_append [OF tq old, of n] h hn nq fresh_ch
    by (cases "n = nxt p") (auto simp: counted_def)
qed

lemma pool_inv_Stop:
  assumes "pool_inv p" and "Stop r (heap p) = Next h"
  shows "pool_inv (p\<lparr>heap := h\<rparr>)"
proof (rule pool_invI)
  note inv = pool_invD [OF assms(1)]
  let ?q = "p\<lparr>heap := h\<rparr>"
  have par: "\<And>x. parent (h x) = parent (heap p x)"
    and wg: "\<And>x. waitgroup (h x) = waitgroup (heap p x)"
    and ch: "\<And>x. children (h x) = children (heap p x)"
    and dc: "\<And>x. doneCh (heap p x) = Closed \<Longrightarrow> doneCh (h x) = Closed"
    using assms(2) by (cases r; auto)+
  show "task_ok ?q t" if "t \<in> set (tasks ?q)" for t
    using that inv(1,3) par dc by (intro task_ok_frame [of p t ?q]) auto
  show "m < x" if "x < nxt ?q" "parent (heap ?q x) = Some m" for x m
    using that inv(3) par by simp
  show "waitgroup (heap ?q n) = own_count ?q n" if "n < nxt ?q" for n
    using that inv(4) [of n] wg own_count_cong [of ?q p n] by simp
  show "children (heap ?q n) = child_count ?q n" if "n < nxt ?q" for n
    using that inv(5) [of n] ch child_count_cong [of ?q p n] par by simp
qed

lemma pool_inv_set_pc:
  assumes inv: "pool_inv p" and i: "i < length (tasks p)"
    and tq: "tasks q = (tasks p)[i := (tasks p ! i)\<lparr>tpc := c\<rparr>]"
    and nq: "nxt q = nxt p"
    and par: "\<And>x. parent (heap q x) = parent (heap p x)"
    and dc: "\<And>x. doneCh (heap p x) = Closed \<Longrightarrow> doneCh (heap q x) = Closed"
    and ok: "task_ok q ((tasks p ! i)\<lparr>tpc := c\<rparr>)"
    and own: "\<And>n. n < nxt p \<Longrightarrow>
        waitgroup (heap q n) + (if tnode (tasks p ! i) = n \<and> tpc (tasks p ! i) \<noteq> GExit then 1 else 0)
      = waitgroup (heap p n) + (if tnode (tasks p ! i) = n \<and> c \<noteq> GExit then 1 else 0)"
    and chn: "\<And>n. n < nxt p \<Longrightarrow>
        children (heap q n)
          + (if parent (heap p (tnode (tasks p ! i))) = Some n \<and> counted (tpc (tasks p ! i)) then 1 else 0)
      = children (heap p n)
          + (if parent (heap p (tnode (tasks p ! i))) = Some n \<and> counted c then 1 else 0)"
  shows "pool_inv q"
proof (rule pool_invI)
  note I = pool_invD [OF inv]
  show "task_ok q t" if "t \<in> set (tasks q)" for t
  proof -
    have "t = (tasks p ! i)\<lparr>tpc := c\<rparr> \<or> t \<in> set (tasks p)"
      using that set_update_subset_insert [of "tasks p" i] unfolding tq by blast
    then show ?thesis
    proof
      assume "t = (tasks p ! i)\<lparr>tpc := c\<rparr>"
      then show ?thesis using ok by simp
    next
      assume "t \<in> set (tasks p)"
      then show ?thesis using I(1,3) par dc nq by (intro task_ok_frame [of p t q]) auto
    qed
  qed
  show "m < x" if "x < nxt q" "parent (heap q x) = Some m" for x m
    using that I(3) par nq by simp
  show "waitgroup (heap q n) = own_count q n" if "n < nxt q" for n
    using that I(4) [of n] own [of n] own_count_set_pc [OF i tq, of n] nq by simp
  show "children (heap q n) = child_count q n" if "n < nxt q" for n
    using that I(5) [of n] chn [of n] child_count_set_pc [OF i tq, of n] par nq by simp
qed


lemma task_okD:
  "task_ok p t \<Longrightarrow> tnode t < nxt p"
  "task_ok p t \<Longrightarrow> tbody t = Propagate m c \<Longrightarrow> tnode t = c \<and> parent (heap p c) = Some m"
  "task_ok p t \<Longrightarrow> tbody t = Propagate m c \<Longrightarrow> past_body (tpc t) \<Longrightarrow> doneCh (heap p c) = Closed"
  "task_ok p t \<Longrightarrow> tbody t = Propagate m c \<Longrightarrow> tpc t = GFwd \<Longrightarrow> doneCh (heap p m) = Closed"
  "task_ok p t \<Longrightarrow> tbody t = UserFn \<Longrightarrow> tpc t \<noteq> GFwd"
  by (auto simp: task_ok_def)

lemma pool_inv_task_step:
  assumes inv: "pool_inv p" and st: "task_step i p = Next q"
  shows "pool_inv q"
proof -
  note I = pool_invD [OF inv]
  have i: "i < length (tasks p)"
    using st by (auto simp: task_step_def split: if_splits)
  define t where "t = tasks p ! i"
  have tin: "t \<in> set (tasks p)" using i by (simp add: t_def)
  have ok: "task_ok p t" using I(1) tin by blast
  have lt: "tnode t < nxt p" using I(2) tin by blast
  show ?thesis
  proof (cases "tpc t")
    case GAdded
    then obtain h where h: "childrenUp (parent (heap p (tnode t))) (heap p) = Next h"
      and q: "q = set_pc i GUp (p\<lparr>heap := h\<rparr>)"
      using st i by (auto simp: task_step_def t_def Let_def obind_eq_Next)
    show ?thesis
    proof (rule pool_inv_set_pc [OF inv i, of q GUp])
      show "tasks q = (tasks p)[i := (tasks p ! i)\<lparr>tpc := GUp\<rparr>]" by (simp add: q set_pc_def)
      show "nxt q = nxt p" by (simp add: q set_pc_def)
      show "parent (heap q x) = parent (heap p x)" for x
        using h by (cases "parent (heap p (tnode t))") (auto simp: q set_pc_def)
      show "doneCh (heap q x) = Closed" if "doneCh (heap p x) = Closed" for x
        using h that by (cases "parent (heap p (tnode t))") (auto simp: q set_pc_def)
      show "task_ok q ((tasks p ! i)\<lparr>tpc := GUp\<rparr>)"
        using ok h GAdded unfolding t_def [symmetric]
        by (cases "parent (heap p (tnode t))")
           (auto simp: task_ok_def q set_pc_def past_body_def split: body.splits)
      show "waitgroup (heap q n) + (if tnode (tasks p ! i) = n \<and> tpc (tasks p ! i) \<noteq> GExit then 1 else 0)
          = waitgroup (heap p n) + (if tnode (tasks p ! i) = n \<and> GUp \<noteq> GExit then 1 else 0)" for n
        using h GAdded unfolding t_def [symmetric]
        by (cases "parent (heap p (tnode t))") (auto simp: q set_pc_def)
      show "children (heap q n)
          + (if parent (heap p (tnode (tasks p ! i))) = Some n \<and> counted (tpc (tasks p ! i)) then 1 else 0)
          = children (heap p n)
          + (if parent (heap p (tnode (tasks p ! i))) = Some n \<and> counted GUp then 1 else 0)" for n
        using h GAdded unfolding t_def [symmetric]
        by (cases "parent (heap p (tnode t))") (auto simp: q set_pc_def counted_def)
    qed
  next
    case GUp
    then have q: "q = set_pc i GRun p"
      using st i by (auto simp: task_step_def t_def Let_def)
    show ?thesis
    proof (rule pool_inv_set_pc [OF inv i, of q GRun])
      show "task_ok q ((tasks p ! i)\<lparr>tpc := GRun\<rparr>)"
        using ok GUp unfolding t_def [symmetric]
        by (auto simp: task_ok_def q set_pc_def past_body_def split: body.splits)
    qed (use GUp in \<open>auto simp: q set_pc_def counted_def t_def\<close>)
  next
    case GRun
    then show ?thesis using st i by (auto simp: task_step_def t_def Let_def)
  next
    case GFwd
    then obtain m c where b: "tbody t = Propagate m c"
      using ok by (cases "tbody t") (auto simp: task_ok_def)
    then have q: "q = set_pc i GRet (p\<lparr>heap := (heap p)(c := (heap p c)\<lparr>doneCh := Closed\<rparr>)\<rparr>)"
      using st i GFwd by (auto simp: task_step_def t_def Let_def)
    show ?thesis
    proof (rule pool_inv_set_pc [OF inv i, of q GRet])
      show "task_ok q ((tasks p ! i)\<lparr>tpc := GRet\<rparr>)"
        using ok GFwd b unfolding t_def [symmetric]
        by (auto simp: task_ok_def q set_pc_def past_body_def)
    qed (use GFwd in \<open>auto simp: q set_pc_def counted_def t_def\<close>)
  next
    case GRet
    then obtain h where h: "childrenDown (parent (heap p (tnode t))) (heap p) = Next h"
      and q: "q = set_pc i GDown (p\<lparr>heap := h\<rparr>)"
      using st i by (auto simp: task_step_def t_def Let_def obind_eq_Next)
    show ?thesis
    proof (rule pool_inv_set_pc [OF inv i, of q GDown])
      show "tasks q = (tasks p)[i := (tasks p ! i)\<lparr>tpc := GDown\<rparr>]" by (simp add: q set_pc_def)
      show "nxt q = nxt p" by (simp add: q set_pc_def)
      show "parent (heap q x) = parent (heap p x)" for x
        using h by (cases "parent (heap p (tnode t))") (auto simp: q set_pc_def childrenDown_eq_Next)
      show "doneCh (heap q x) = Closed" if "doneCh (heap p x) = Closed" for x
        using h that by (cases "parent (heap p (tnode t))") (auto simp: q set_pc_def childrenDown_eq_Next)
      show "task_ok q ((tasks p ! i)\<lparr>tpc := GDown\<rparr>)"
        using ok h GRet unfolding t_def [symmetric]
        by (cases "parent (heap p (tnode t))")
           (auto simp: task_ok_def q set_pc_def past_body_def childrenDown_eq_Next split: body.splits)
      show "waitgroup (heap q n) + (if tnode (tasks p ! i) = n \<and> tpc (tasks p ! i) \<noteq> GExit then 1 else 0)
          = waitgroup (heap p n) + (if tnode (tasks p ! i) = n \<and> GDown \<noteq> GExit then 1 else 0)" for n
        using h GRet unfolding t_def [symmetric]
        by (cases "parent (heap p (tnode t))") (auto simp: q set_pc_def childrenDown_eq_Next)
      show "children (heap q n)
          + (if parent (heap p (tnode (tasks p ! i))) = Some n \<and> counted (tpc (tasks p ! i)) then 1 else 0)
          = children (heap p n)
          + (if parent (heap p (tnode (tasks p ! i))) = Some n \<and> counted GDown then 1 else 0)" for n
        using h GRet unfolding t_def [symmetric]
        by (cases "parent (heap p (tnode t))") (auto simp: q set_pc_def counted_def childrenDown_eq_Next)
    qed
  next
    case GDown
    then obtain d where d: "waitgroup (heap p (tnode t)) = Suc d"
      and q: "q = set_pc i GExit (p\<lparr>heap := (heap p)(tnode t := (heap p (tnode t))\<lparr>waitgroup := d\<rparr>)\<rparr>)"
      using st i by (auto simp: task_step_def t_def Let_def obind_eq_Next waitgroup_Done_eq_Next)
    show ?thesis
    proof (rule pool_inv_set_pc [OF inv i, of q GExit])
      show "task_ok q ((tasks p ! i)\<lparr>tpc := GExit\<rparr>)"
        using ok GDown unfolding t_def [symmetric]
        by (auto simp: task_ok_def q set_pc_def past_body_def split: body.splits)
    qed (use GDown d in \<open>auto simp: q set_pc_def counted_def t_def\<close>)
  next
    case GExit
    then show ?thesis using st i by (auto simp: task_step_def t_def Let_def)
  qed
qed

lemma pool_inv_fn_return:
  assumes inv: "pool_inv p" and st: "fn_return i p = Next q"
  shows "pool_inv q"
proof -
  have i: "i < length (tasks p)" and pc: "tpc (tasks p ! i) = GRun"
    and b: "tbody (tasks p ! i) = UserFn" and q: "q = set_pc i GRet p"
    using st by (auto simp: fn_return_def split: if_splits)
  have ok: "task_ok p (tasks p ! i)" using pool_invD(1) [OF inv] i by simp
  show ?thesis
  proof (rule pool_inv_set_pc [OF inv i, of q GRet])
    show "task_ok q ((tasks p ! i)\<lparr>tpc := GRet\<rparr>)"
      using ok b by (auto simp: task_ok_def q set_pc_def)
  qed (use pc in \<open>auto simp: q set_pc_def counted_def\<close>)
qed

lemma pool_inv_fn_select:
  assumes inv: "pool_inv p" and st: "fn_select i b p = Next q"
  shows "pool_inv q"
proof -
  have i: "i < length (tasks p)" and pc: "tpc (tasks p ! i) = GRun"
    using st by (auto simp: fn_select_def split: if_splits)
  then obtain m c where bd: "tbody (tasks p ! i) = Propagate m c"
    using st by (cases "tbody (tasks p ! i)") (auto simp: fn_select_def)
  have ok: "task_ok p (tasks p ! i)" using pool_invD(1) [OF inv] i by simp
  show ?thesis
  proof (cases b)
    case True
    then have q: "q = set_pc i GFwd p" and cl: "doneCh (heap p m) = Closed"
      using st i pc bd by (auto simp: fn_select_def recv_ready_def Done_def split: if_splits)
    show ?thesis
    proof (rule pool_inv_set_pc [OF inv i, of q GFwd])
      show "task_ok q ((tasks p ! i)\<lparr>tpc := GFwd\<rparr>)"
        using ok bd cl by (auto simp: task_ok_def q set_pc_def past_body_def)
    qed (use pc in \<open>auto simp: q set_pc_def counted_def\<close>)
  next
    case False
    then have q: "q = set_pc i GRet p" and cl: "doneCh (heap p c) = Closed"
      using st i pc bd by (auto simp: fn_select_def recv_ready_def Done_def split: if_splits)
    show ?thesis
    proof (rule pool_inv_set_pc [OF inv i, of q GRet])
      show "task_ok q ((tasks p ! i)\<lparr>tpc := GRet\<rparr>)"
        using ok bd cl by (auto simp: task_ok_def q set_pc_def past_body_def)
    qed (use pc in \<open>auto simp: q set_pc_def counted_def\<close>)
  qed
qed

lemma pool_le_refl [simp]: "pool_le p p"
  by (simp add: pool_le_def)

lemma pool_le_trans: "pool_le p q \<Longrightarrow> pool_le q r \<Longrightarrow> pool_le p r"
  unfolding pool_le_def
  by (smt (verit) le_trans less_le_trans)

lemma pool_le_set_pc:
  assumes "i < length (tasks p)" and "rank (tpc (tasks p ! i)) \<le> rank c"
    and "nxt q = nxt p" and "tasks q = (tasks p)[i := (tasks p ! i)\<lparr>tpc := c\<rparr>]"
    and "\<And>a. parent (heap q a) = parent (heap p a)"
    and "\<And>a. doneCh (heap p a) = Closed \<Longrightarrow> doneCh (heap q a) = Closed"
  shows "pool_le p q"
  using assms by (auto simp: pool_le_def nth_list_update)

lemma pool_le_task_step:
  assumes "task_step i p = Next q"
  shows "pool_le p q"
proof -
  have i: "i < length (tasks p)"
    using assms by (auto simp: task_step_def split: if_splits)
  show ?thesis
  proof (cases "tpc (tasks p ! i)")
    case GAdded
    then show ?thesis using assms i
      by (cases "parent (heap p (tnode (tasks p ! i)))")
         (auto simp: task_step_def Let_def set_pc_def intro!: pool_le_set_pc [of i p GUp])
  next
    case GUp
    then show ?thesis using assms i
      by (auto simp: task_step_def Let_def set_pc_def intro!: pool_le_set_pc [of i p GRun])
  next
    case GFwd
    then show ?thesis using assms i
      by (cases "tbody (tasks p ! i)")
         (auto simp: task_step_def Let_def set_pc_def intro!: pool_le_set_pc [of i p GRet])
  next
    case GRet
    then show ?thesis using assms i
      by (cases "parent (heap p (tnode (tasks p ! i)))")
         (auto simp: task_step_def Let_def obind_eq_Next childrenDown_eq_Next set_pc_def
               intro!: pool_le_set_pc [of i p GDown])
  next
    case GDown
    then show ?thesis using assms i
      by (auto simp: task_step_def Let_def obind_eq_Next waitgroup_Done_eq_Next set_pc_def
               intro!: pool_le_set_pc [of i p GExit])
  qed (use assms i in \<open>auto simp: task_step_def Let_def\<close>)
qed

lemma pool_le_move:
  assumes "pool_move p q"
  shows "pool_le p q"
proof -
  have "pool_le p (snd (NewRoutines p))"
    by (auto simp: pool_le_def NewRoutines_def)
  moreover have "pool_le p q" if "Child (Some m) p = Next (ch, q)" for m ch
    using that unfolding Child_Some by (auto simp: pool_le_def nth_append)
  moreover have "pool_le p q" if "Go (Some a) UserFn p = Next q" for a
    using that unfolding Go_Some by (auto simp: pool_le_def nth_append)
  moreover have "pool_le p (p\<lparr>heap := h\<rparr>)" if "Stop r (heap p) = Next h" for r h
    using that by (cases r) (auto simp: pool_le_def)
  moreover have "pool_le p q" if "fn_return i p = Next q" for i
    using that
    by (auto simp: fn_return_def set_pc_def split: if_splits intro!: pool_le_set_pc [of i p GRet])
  moreover have "pool_le p q" if "fn_select i b p = Next q" for i b
  proof (cases b)
    case True
    then show ?thesis using that
      by (auto simp: fn_select_def set_pc_def split: if_splits body.splits
               intro!: pool_le_set_pc [of i p GFwd])
  next
    case False
    then show ?thesis using that
      by (auto simp: fn_select_def set_pc_def split: if_splits body.splits
               intro!: pool_le_set_pc [of i p GRet])
  qed
  ultimately show ?thesis
    using assms pool_le_task_step unfolding pool_move_def by fastforce
qed

lemma pool_inv_move:
  assumes "pool_inv p" and "pool_move p q"
  shows "pool_inv q"
proof -
  consider "q = p" | "q = snd (NewRoutines p)"
    | m ch where "m < nxt p" "Child (Some m) p = Next (ch, q)"
    | a where "a < nxt p" "Go (Some a) UserFn p = Next q"
    | r h where "Stop r (heap p) = Next h" "q = p\<lparr>heap := h\<rparr>"
    | i where "task_step i p = Next q"
    | i where "fn_return i p = Next q"
    | i b where "fn_select i b p = Next q"
    using assms(2) unfolding pool_move_def by blast
  then show ?thesis
  proof cases
    case 1
    then show ?thesis using assms(1) by simp
  next
    case 2
    then show ?thesis using assms(1) pool_inv_NewRoutines by simp
  next
    case 3
    then show ?thesis using assms(1) pool_inv_Child by blast
  next
    case 4
    then show ?thesis using assms(1) pool_inv_Go by blast
  next
    case 5
    then show ?thesis using assms(1) pool_inv_Stop by blast
  next
    case 6
    then show ?thesis using assms(1) pool_inv_task_step by blast
  next
    case 7
    then show ?thesis using assms(1) pool_inv_fn_return by blast
  next
    case 8
    then show ?thesis using assms(1) pool_inv_fn_select by blast
  qed
qed

lemma child_ok_mono: "pool_le p q \<Longrightarrow> child_ok p r \<Longrightarrow> child_ok q r"
  by (auto simp: child_ok_def pool_le_def split: Routines.splits option.splits)

lemma stopped_mono: "pool_le p q \<Longrightarrow> stopped p r a \<Longrightarrow> stopped q r a"
  by (auto simp: stopped_def pool_le_def)

lemma valid_arg_mono: "pool_le p q \<Longrightarrow> valid_arg p r \<Longrightarrow> valid_arg q r"
  by (auto simp: valid_arg_def valid_ref_def pool_le_def split: Routines.splits option.splits)

lemma pc_pool_ok_mono: "pool_le p q \<Longrightarrow> pc_pool_ok p c \<Longrightarrow> pc_pool_ok q c"
proof (cases c)
  case (SChild ch k)
  then show "pool_le p q \<Longrightarrow> pc_pool_ok p c \<Longrightarrow> pc_pool_ok q c"
    by (auto simp: pc_pool_ok_def pool_le_def)
qed (auto simp: pc_pool_ok_def intro: child_ok_mono stopped_mono)

lemma valid_svc_mono: "length (svcs w) \<le> length (svcs w') \<Longrightarrow> valid_svc w me \<Longrightarrow> valid_svc w' me"
  by (auto simp: valid_svc_def split: option.splits)

lemma svc_ok_mono: "pool_le p q \<Longrightarrow> svc_ok p s \<Longrightarrow> svc_ok q s"
  by (auto simp: svc_ok_def intro: child_ok_mono)

lemma world_invD:
  assumes "world_inv w"
  shows "pool_inv (pool w)"
    and "\<And>i. i < length (calls w) \<Longrightarrow> call_ok w (calls w ! i)"
    and "\<And>s. s < length (svcs w) \<Longrightarrow> svc_ok (pool w) (svcs w ! s)"
    and "mutex_ok w"
  using assms by (auto simp: world_inv_def)

text \<open>A step that changes nothing but the pool, monotonically.\<close>

lemma world_inv_pool:
  assumes "world_inv w" and "pool_move (pool w) q"
    and "svcs w' = svcs w" and "calls w' = calls w" and "pool w' = q"
  shows "world_inv w'"
proof -
  note I = world_invD [OF assms(1)]
  have le: "pool_le (pool w) (pool w')"
    using pool_le_move [OF assms(2)] assms(5) by simp
  have "pool_inv (pool w')"
    using pool_inv_move [OF I(1) assms(2)] assms(5) by simp
  moreover have "call_ok w' (calls w' ! i)" if "i < length (calls w')" for i
    using I(2) [of i] that le assms(3,4) valid_svc_mono [of w w']
    by (auto simp: call_ok_def intro: valid_arg_mono pc_pool_ok_mono)
  moreover have "svc_ok (pool w') (svcs w' ! s)" if "s < length (svcs w')" for s
    using I(3) [of s] that le assms(3) by (auto intro: svc_ok_mono)
  moreover have "mutex_ok w'"
    using I(4) assms(3,4) by (simp add: mutex_ok_def holds_def)
  ultimately show ?thesis by (simp add: world_inv_def)
qed

text \<open>A statement of call \<open>i\<close>: its counter moves, the pool grows; the service
  records keep their \<^verbatim>\<open>start\<close> and, unless the call holds the mutex, their
  \<^verbatim>\<open>routines\<close>.\<close>

lemma world_inv_call:
  assumes inv: "world_inv w" and i: "i < length (calls w)"
    and cs: "calls w' = (calls w)[i := (calls w ! i)\<lparr>cpc := q\<rparr>]"
    and pinv: "pool_inv (pool w')" and le: "pool_le (pool w) (pool w')"
    and len: "length (svcs w') = length (svcs w)"
    and st: "\<And>s. s < length (svcs w) \<Longrightarrow> start (svcs w' ! s) = start (svcs w ! s)"
    and rt: "\<And>s. s < length (svcs w) \<Longrightarrow>
               routines (svcs w' ! s) = routines (svcs w ! s)
             \<or> routines (svcs w' ! s) = NilRoutines
             \<or> (holds w i s \<and> child_ok (pool w') (routines (svcs w' ! s))
                  \<and> start (svcs w ! s) \<noteq> Stub)"
    and pcq: "pc_pool_ok (pool w') q"
    and idq: "\<And>s. csvc (calls w ! i) = Some s \<Longrightarrow> idle_pc q \<Longrightarrow> routines (svcs w' ! s) = NilRoutines"
    and mx: "mutex_ok w'"
  shows "world_inv w'"
proof -
  note I = world_invD [OF inv]
  have "call_ok w' (calls w' ! j)" if j: "j < length (calls w')" for j
  proof (cases "j = i")
    case True
    then have "calls w' ! j = (calls w ! i)\<lparr>cpc := q\<rparr>" using i cs by simp
    then show ?thesis using I(2) [OF i] pcq idq le len valid_svc_mono [of w w']
      by (auto simp: call_ok_def intro: valid_arg_mono)
  next
    case False
    then have eq: "calls w' ! j = calls w ! j" using cs by simp
    have jl: "j < length (calls w)" using j cs by simp
    have ok: "call_ok w (calls w ! j)" using I(2) jl by blast
    have "routines (svcs w' ! s) = NilRoutines"
      if "csvc (calls w ! j) = Some s" "idle_pc (cpc (calls w ! j))" for s
    proof -
      have s: "s < length (svcs w)" using ok that(1) by (simp add: call_ok_def valid_svc_def)
      have nil: "routines (svcs w ! s) = NilRoutines" using ok that by (simp add: call_ok_def)
      have hj: "holds w j s" using that jl
        by (auto simp: holds_def holding_def idle_pc_def split: pc.splits)
      have "\<not> holds w i s" using hj I(4) False by (auto simp: mutex_ok_def)
      then show ?thesis using rt [OF s] nil by auto
    qed
    then show ?thesis using ok le len valid_svc_mono [of w w'] unfolding eq
      by (auto simp: call_ok_def intro: valid_arg_mono pc_pool_ok_mono)
  qed
  moreover have "svc_ok (pool w') (svcs w' ! s)" if "s < length (svcs w')" for s
  proof -
    have s: "s < length (svcs w)" using that len by simp
    show ?thesis using rt [OF s] st [OF s] svc_ok_mono [OF le I(3) [OF s]]
      by (auto simp: svc_ok_def child_ok_def)
  qed
  ultimately show ?thesis using pinv mx by (simp add: world_inv_def)
qed

lemma holds_update:
  assumes "i < length (calls w)" and "calls w' = (calls w)[i := (calls w ! i)\<lparr>cpc := q\<rparr>]"
  shows "holds w' j s \<longleftrightarrow>
           (if j = i then csvc (calls w ! i) = Some s \<and> holding q else holds w j s)"
  using assms by (auto simp: holds_def nth_list_update)

lemma mutex_same:
  assumes "mutex_ok w" and "i < length (calls w)"
    and "calls w' = (calls w)[i := (calls w ! i)\<lparr>cpc := q\<rparr>]"
    and "csvc (calls w ! i) \<noteq> None \<Longrightarrow> holding q = holding (cpc (calls w ! i))"
    and "\<And>s. mut (svcs w' ! s) = mut (svcs w ! s)"
  shows "mutex_ok w'"
proof -
  have "holds w' j s = holds w j s" for j s
    unfolding holds_update [OF assms(2,3)] using assms(2,4) by (auto simp: holds_def)
  then show ?thesis using assms(1,5) by (simp add: mutex_ok_def)
qed

lemma mutex_lock:
  assumes "mutex_ok w" and "i < length (calls w)"
    and "calls w' = (calls w)[i := (calls w ! i)\<lparr>cpc := q\<rparr>]"
    and "csvc (calls w ! i) = Some s" and "s < length (svcs w)" and "\<not> mut (svcs w ! s)"
    and "svcs w' = (svcs w)[s := (svcs w ! s)\<lparr>mut := True\<rparr>]"
  shows "mutex_ok w'"
proof -
  have none: "\<not> holds w j s" for j
    using assms(1,6) by (auto simp: mutex_ok_def)
  have h: "holds w' j t \<Longrightarrow> (j = i \<and> t = s) \<or> (t \<noteq> s \<and> holds w j t)" for j t
    unfolding holds_update [OF assms(2,3)] using assms(4) none by (auto split: if_splits)
  show ?thesis
    unfolding mutex_ok_def
  proof (intro allI impI conjI)
    fix j t assume a: "holds w' j t"
    show "mut (svcs w' ! t)"
      using h [OF a] assms(1,5,7) by (auto simp: mutex_ok_def nth_list_update)
    fix k assume b: "holds w' k t"
    show "k = j"
      using h [OF a] h [OF b] assms(1) by (auto simp: mutex_ok_def)
  qed
qed

lemma mutex_unlock:
  assumes "mutex_ok w" and "i < length (calls w)"
    and "calls w' = (calls w)[i := (calls w ! i)\<lparr>cpc := q\<rparr>]"
    and "csvc (calls w ! i) = Some s" and "holding (cpc (calls w ! i))" and "\<not> holding q"
    and "svcs w' = (svcs w)[s := (svcs w ! s)\<lparr>mut := False\<rparr>]"
  shows "mutex_ok w'"
proof -
  have hi: "holds w i s" using assms(2,4,5) by (simp add: holds_def)
  have h: "holds w' j t \<Longrightarrow> t \<noteq> s \<and> j \<noteq> i \<and> holds w j t" for j t
    unfolding holds_update [OF assms(2,3)] using assms(1,6) hi
    by (auto simp: mutex_ok_def split: if_splits)
  show ?thesis
    unfolding mutex_ok_def
  proof (intro allI impI conjI)
    fix j t assume a: "holds w' j t"
    show "mut (svcs w' ! t)"
      using h [OF a] assms(1,7) by (auto simp: mutex_ok_def nth_list_update)
    fix k assume b: "holds w' k t"
    show "k = j"
      using h [OF a] h [OF b] assms(1) by (auto simp: mutex_ok_def)
  qed
qed

lemma call_step_cases [consumes 1, case_names NilStart NilStop SLock SAlreadyT SNilArg STypedNil
    SChildC SAlreadyRet SChildDone SStub SStopNil SStopC SWaitStep SWaitDone SRetErrC SRetOkC
    SPanicC TLock TIdle TStop TWaitStep TWaitDone TClearC TUnlockC]:
  assumes "call_step i w = Next w'"
  obtains
    (NilStart) "i < length (calls w)" "csvc (calls w ! i) = None" "cpc (calls w ! i) = SEntry"
      "w' = set_cpc i (Finished (Inr (Some NilReceiver))) w"
  | (NilStop) "i < length (calls w)" "csvc (calls w ! i) = None" "cpc (calls w ! i) = TEntry"
      "w' = set_cpc i (Finished (Inr None)) w"
  | (SLock) s where "i < length (calls w)" "csvc (calls w ! i) = Some s"
      "cpc (calls w ! i) = SEntry" "\<not> mut (svcs w ! s)" "w' = set_cpc i SLocked (set_mut s True w)"
  | (SAlreadyT) s where "i < length (calls w)" "csvc (calls w ! i) = Some s"
      "cpc (calls w ! i) = SLocked" "routines (svcs w ! s) \<noteq> NilRoutines"
      "w' = set_cpc i SAlready w"
  | (SNilArg) s where "i < length (calls w)" "csvc (calls w ! i) = Some s"
      "cpc (calls w ! i) = SLocked" "routines (svcs w ! s) = NilRoutines"
      "carg (calls w ! i) = NilRoutines" "w' = set_cpc i (SPanic NilDereference) w"
  | (STypedNil) s where "i < length (calls w)" "csvc (calls w ! i) = Some s"
      "cpc (calls w ! i) = SLocked" "routines (svcs w ! s) = NilRoutines"
      "carg (calls w ! i) = Impl None" "w' = set_cpc i (SUser NilRoutines) w"
  | (SChildC) s m q where "i < length (calls w)" "csvc (calls w ! i) = Some s"
      "cpc (calls w ! i) = SLocked" "routines (svcs w ! s) = NilRoutines"
      "carg (calls w ! i) = Impl (Some m)"
      "Child (Some m) (pool w) = Next (Impl (Some (nxt (pool w))), q)"
      "w' = set_cpc i (SChild (Impl (Some (nxt (pool w)))) (length (tasks (pool w)))) (w\<lparr>pool := q\<rparr>)"
  | (SAlreadyRet) s where "i < length (calls w)" "csvc (calls w ! i) = Some s"
      "cpc (calls w ! i) = SAlready"
      "w' = set_cpc i (Finished (Inr (Some AlreadyStarted))) (Unlock s w)"
  | (SChildDone) s ch k where "i < length (calls w)" "csvc (calls w ! i) = Some s"
      "cpc (calls w ! i) = SChild ch k" "k < length (tasks (pool w))"
      "launched (tpc (tasks (pool w) ! k))" "w' = set_cpc i (SUser ch) w"
  | (SStub) s ch where "i < length (calls w)" "csvc (calls w ! i) = Some s"
      "cpc (calls w ! i) = SUser ch" "start (svcs w ! s) = Stub"
      "w' = set_cpc i (SStop ch NilArgument) w"
  | (SStopNil) s e where "i < length (calls w)" "csvc (calls w ! i) = Some s"
      "cpc (calls w ! i) = SStop NilRoutines e" "w' = set_cpc i (SPanic NilDereference) w"
  | (SStopC) s r e h where "i < length (calls w)" "csvc (calls w ! i) = Some s"
      "cpc (calls w ! i) = SStop (Impl r) e" "Stop r (heap (pool w)) = Next h"
      "w' = set_cpc i (SWait (Impl r) e (Wait_call r)) (set_heap h w)"
  | (SWaitStep) s ch e q q1 where "i < length (calls w)" "csvc (calls w ! i) = Some s"
      "cpc (calls w ! i) = SWait ch e q" "wait_step (heap (pool w)) q = Next q1"
      "w' = set_cpc i (SWait ch e q1) w"
  | (SWaitDone) s ch e r where "i < length (calls w)" "csvc (calls w ! i) = Some s"
      "cpc (calls w ! i) = SWait ch e (WReturned r)" "w' = set_cpc i (SRetErr ch e) w"
  | (SRetErrC) s ch e where "i < length (calls w)" "csvc (calls w ! i) = Some s"
      "cpc (calls w ! i) = SRetErr ch e" "w' = set_cpc i (Finished (Inr (Some e))) (Unlock s w)"
  | (SRetOkC) s ch where "i < length (calls w)" "csvc (calls w ! i) = Some s"
      "cpc (calls w ! i) = SRetOk ch" "w' = set_cpc i (Finished (Inr None)) (Unlock s w)"
  | (SPanicC) s x where "i < length (calls w)" "csvc (calls w ! i) = Some s"
      "cpc (calls w ! i) = SPanic x" "w' = set_cpc i (Finished (Inl x)) (Unlock s w)"
  | (TLock) s where "i < length (calls w)" "csvc (calls w ! i) = Some s"
      "cpc (calls w ! i) = TEntry" "\<not> mut (svcs w ! s)" "w' = set_cpc i TLocked (set_mut s True w)"
  | (TIdle) s where "i < length (calls w)" "csvc (calls w ! i) = Some s"
      "cpc (calls w ! i) = TLocked" "routines (svcs w ! s) = NilRoutines"
      "w' = set_cpc i TUnlock w"
  | (TStop) s r h where "i < length (calls w)" "csvc (calls w ! i) = Some s"
      "cpc (calls w ! i) = TLocked" "routines (svcs w ! s) = Impl r"
      "Stop r (heap (pool w)) = Next h"
      "w' = set_cpc i (TWait (Wait_call r)) (set_heap h w)"
  | (TWaitStep) s q q1 where "i < length (calls w)" "csvc (calls w ! i) = Some s"
      "cpc (calls w ! i) = TWait q" "wait_step (heap (pool w)) q = Next q1"
      "w' = set_cpc i (TWait q1) w"
  | (TWaitDone) s r where "i < length (calls w)" "csvc (calls w ! i) = Some s"
      "cpc (calls w ! i) = TWait (WReturned r)" "w' = set_cpc i TClear w"
  | (TClearC) s where "i < length (calls w)" "csvc (calls w ! i) = Some s"
      "cpc (calls w ! i) = TClear" "w' = set_cpc i TUnlock (set_routines s NilRoutines w)"
  | (TUnlockC) s where "i < length (calls w)" "csvc (calls w ! i) = Some s"
      "cpc (calls w ! i) = TUnlock" "w' = set_cpc i (Finished (Inr None)) (Unlock s w)"
proof -
  have i: "i < length (calls w)"
    using assms by (auto simp: call_step_def split: if_splits)
  show ?thesis
  proof (cases "csvc (calls w ! i)")
    case None
    then show ?thesis using assms i NilStart NilStop
      by (cases "cpc (calls w ! i)") (auto simp: call_step_def Let_def)
  next
    case (Some s)
    show ?thesis
    proof (cases "cpc (calls w ! i)")
      case SEntry
      then show ?thesis using assms i Some SLock
        by (auto simp: call_step_def Let_def is_Start_pc_def Start_step_def Lock_def split: if_splits)
    next
      case SLocked
      show ?thesis
      proof (cases "routines (svcs w ! s) = NilRoutines")
        case False
        then show ?thesis using assms i Some SLocked SAlreadyT
          by (auto simp: call_step_def Let_def is_Start_pc_def Start_step_def)
      next
        case True
        show ?thesis
        proof (cases "carg (calls w ! i)")
          case NilRoutines
          then show ?thesis using assms i Some SLocked True SNilArg
            by (auto simp: call_step_def Let_def is_Start_pc_def Start_step_def iface_def)
        next
          case (Impl r)
          show ?thesis
          proof (cases r)
            case None
            then show ?thesis using assms i Some SLocked True Impl STypedNil
              by (auto simp: call_step_def Let_def is_Start_pc_def Start_step_def iface_def Child_def)
          next
            case (Some m)
            then show ?thesis using assms i \<open>csvc (calls w ! i) = Some s\<close> SLocked True Impl
                SChildC [of s m]
              by (auto simp: call_step_def Let_def is_Start_pc_def Start_step_def iface_def Child_Some)
          qed
        qed
      qed
    next
      case SAlready
      then show ?thesis using assms i Some SAlreadyRet
        by (auto simp: call_step_def Let_def is_Start_pc_def Start_step_def)
    next
      case (SChild ch k)
      then show ?thesis using assms i Some SChildDone
        by (auto simp: call_step_def Let_def is_Start_pc_def Start_step_def split: if_splits)
    next
      case (SUser ch)
      then show ?thesis using assms i Some SStub
        by (auto simp: call_step_def Let_def is_Start_pc_def Start_step_def split: startfn.splits)
    next
      case (SStop ch e)
      note pc = this
      show ?thesis
      proof (cases ch)
        case NilRoutines
        then show ?thesis using assms i Some pc SStopNil
          by (auto simp: call_step_def Let_def is_Start_pc_def Start_step_def iface_def)
      next
        case (Impl r)
        obtain h where h: "Stop r (heap (pool w)) = Next h" using Stop_total by blast
        then show ?thesis using assms i Some pc Impl SStopC [of s r e h]
          by (auto simp: call_step_def Let_def is_Start_pc_def Start_step_def iface_def)
      qed
    next
      case (SWait ch e q)
      then show ?thesis using assms i Some SWaitStep SWaitDone
        by (cases q)
           (auto simp: call_step_def Let_def is_Start_pc_def Start_step_def obind_eq_Next)
    next
      case (SRetErr ch e)
      then show ?thesis using assms i Some SRetErrC
        by (auto simp: call_step_def Let_def is_Start_pc_def Start_step_def)
    next
      case (SRetOk ch)
      then show ?thesis using assms i Some SRetOkC
        by (auto simp: call_step_def Let_def is_Start_pc_def Start_step_def)
    next
      case (SPanic x)
      then show ?thesis using assms i Some SPanicC
        by (auto simp: call_step_def Let_def is_Start_pc_def Start_step_def)
    next
      case TEntry
      then show ?thesis using assms i Some TLock
        by (auto simp: call_step_def Let_def is_Start_pc_def Stop_step_def Lock_def split: if_splits)
    next
      case TLocked
      note pc = this
      show ?thesis
      proof (cases "routines (svcs w ! s)")
        case NilRoutines
        then show ?thesis using assms i Some pc TIdle
          by (auto simp: call_step_def Let_def is_Start_pc_def Stop_step_def)
      next
        case (Impl r)
        obtain h where h: "Stop r (heap (pool w)) = Next h" using Stop_total by blast
        then show ?thesis using assms i Some pc Impl TStop [of s r h]
          by (auto simp: call_step_def Let_def is_Start_pc_def Stop_step_def)
      qed
    next
      case (TWait q)
      then show ?thesis using assms i Some TWaitStep TWaitDone
        by (cases q)
           (auto simp: call_step_def Let_def is_Start_pc_def Stop_step_def obind_eq_Next)
    next
      case TClear
      then show ?thesis using assms i Some TClearC
        by (auto simp: call_step_def Let_def is_Start_pc_def Stop_step_def)
    next
      case TUnlock
      then show ?thesis using assms i Some TUnlockC
        by (auto simp: call_step_def Let_def is_Start_pc_def Stop_step_def)
    next
      case (Finished r)
      then show ?thesis using assms i Some
        by (auto simp: call_step_def Let_def is_Start_pc_def Stop_step_def)
    qed
  qed
qed

lemma world_upd [simp]:
  "calls (set_cpc i q w) = (calls w)[i := (calls w ! i)\<lparr>cpc := q\<rparr>]"
  "svcs (set_cpc i q w) = svcs w" "pool (set_cpc i q w) = pool w" "waits (set_cpc i q w) = waits w"
  "calls (set_mut s b w) = calls w" "pool (set_mut s b w) = pool w" "waits (set_mut s b w) = waits w"
  "svcs (set_mut s b w) = (svcs w)[s := (svcs w ! s)\<lparr>mut := b\<rparr>]"
  "calls (set_routines s r w) = calls w" "pool (set_routines s r w) = pool w"
  "waits (set_routines s r w) = waits w"
  "svcs (set_routines s r w) = (svcs w)[s := (svcs w ! s)\<lparr>routines := r\<rparr>]"
  "calls (set_heap h w) = calls w" "svcs (set_heap h w) = svcs w" "waits (set_heap h w) = waits w"
  "pool (set_heap h w) = (pool w)\<lparr>heap := h\<rparr>"
  "Unlock s w = set_mut s False w"
  by (simp_all add: set_cpc_def set_mut_def set_routines_def set_heap_def Unlock_def)

lemma svc_nth_upd:
  "start (xs[s := (xs ! s)\<lparr>mut := b\<rparr>] ! t) = start (xs ! t)"
  "routines (xs[s := (xs ! s)\<lparr>mut := b\<rparr>] ! t) = routines (xs ! t)"
  "start (xs[s := (xs ! s)\<lparr>routines := r\<rparr>] ! t) = start (xs ! t)"
  "mut (xs[s := (xs ! s)\<lparr>routines := r\<rparr>] ! t) = mut (xs ! t)"
proof -
  show "start (xs[s := (xs ! s)\<lparr>mut := b\<rparr>] ! t) = start (xs ! t)"
    by (cases "t = s"; cases "s < length xs"; simp add: not_less list_update_beyond)
  show "routines (xs[s := (xs ! s)\<lparr>mut := b\<rparr>] ! t) = routines (xs ! t)"
    by (cases "t = s"; cases "s < length xs"; simp add: not_less list_update_beyond)
  show "start (xs[s := (xs ! s)\<lparr>routines := r\<rparr>] ! t) = start (xs ! t)"
    by (cases "t = s"; cases "s < length xs"; simp add: not_less list_update_beyond)
  show "mut (xs[s := (xs ! s)\<lparr>routines := r\<rparr>] ! t) = mut (xs ! t)"
    by (cases "t = s"; cases "s < length xs"; simp add: not_less list_update_beyond)
qed

lemma call_okD:
  assumes "world_inv w" and "i < length (calls w)"
  shows "valid_svc w (csvc (calls w ! i))" and "valid_arg (pool w) (carg (calls w ! i))"
    and "pc_pool_ok (pool w) (cpc (calls w ! i))"
    and "\<And>s. csvc (calls w ! i) = Some s \<Longrightarrow> s < length (svcs w)"
    and "\<And>s. csvc (calls w ! i) = Some s \<Longrightarrow> idle_pc (cpc (calls w ! i)) \<Longrightarrow>
           routines (svcs w ! s) = NilRoutines"
  using world_invD(2) [OF assms] by (auto simp: call_ok_def valid_svc_def)

lemma child_ok_of_SChild:
  assumes "pool_inv p" and "pc_pool_ok p (SChild ch k)"
  shows "child_ok p ch"
proof -
  obtain m a where k: "k < length (tasks p)" and ch: "ch = Impl (Some a)"
    and b: "tbody (tasks p ! k) = Propagate m a"
    using assms(2) by (auto simp: pc_pool_ok_def)
  have "task_ok p (tasks p ! k)" using pool_invD(1) [OF assms(1)] k by simp
  then show ?thesis using b ch by (auto simp: task_ok_def child_ok_def)
qed

lemma stopped_after_Stop:
  assumes "child_ok p (Impl r)" and "Stop r (heap p) = Next h"
  shows "\<exists>a. stopped (p\<lparr>heap := h\<rparr>) (Impl r) a \<and> Wait_call r = WChildren a"
  using assms by (cases r) (auto simp: child_ok_def stopped_def Wait_call_def)

lemma pc_pool_ok_wait_step:
  assumes "pc_pool_ok p (SWait ch e q)" and "wait_step h q = Next q1"
  shows "pc_pool_ok p (SWait ch e q1)"
  using assms by (auto simp: pc_pool_ok_def wait_step_def obind_eq_Next)

lemma routines_nth_upd:
  "routines (xs[s := (xs ! s)\<lparr>routines := r\<rparr>] ! t)
     = (if t = s \<and> s < length xs then r else routines (xs ! t))"
  by (cases "t = s"; cases "s < length xs"; simp add: not_less list_update_beyond)

lemma world_inv_call_step:
  assumes inv: "world_inv w" and st: "call_step i w = Next w'"
  shows "world_inv w'"
  using st
proof (cases rule: call_step_cases)
  case NilStart
  note K = call_okD [OF inv NilStart(1)]
  have mx: "mutex_ok w'"
    by (rule mutex_same [OF world_invD(4) [OF inv] NilStart(1), where q = "Finished (Inr (Some NilReceiver))"])
       (simp_all add: NilStart)
  show ?thesis
    by (rule world_inv_call [OF inv NilStart(1), where q = "Finished (Inr (Some NilReceiver))"])
       (use NilStart(2-) K mx world_invD(1) [OF inv] in
         \<open>simp_all add: pc_pool_ok_def idle_pc_def\<close>)
next
  case NilStop
  note K = call_okD [OF inv NilStop(1)]
  have mx: "mutex_ok w'"
    by (rule mutex_same [OF world_invD(4) [OF inv] NilStop(1), where q = "Finished (Inr None)"])
       (simp_all add: NilStop)
  show ?thesis
    by (rule world_inv_call [OF inv NilStop(1), where q = "Finished (Inr None)"])
       (use NilStop(2-) K mx world_invD(1) [OF inv] in
         \<open>simp_all add: pc_pool_ok_def idle_pc_def\<close>)
next
  case (SLock s)
  note K = call_okD [OF inv SLock(1)]
  have mx: "mutex_ok w'"
    by (rule mutex_lock [OF world_invD(4) [OF inv] SLock(1), where q = "SLocked" and s = s])
       (simp_all add: SLock K(4))
  show ?thesis
    by (rule world_inv_call [OF inv SLock(1), where q = "SLocked"])
       (use SLock(2-) K mx world_invD(1) [OF inv] in
         \<open>simp_all add: pc_pool_ok_def idle_pc_def svc_nth_upd\<close>)
next
  case (SAlreadyT s)
  note K = call_okD [OF inv SAlreadyT(1)]
  have mx: "mutex_ok w'"
    by (rule mutex_same [OF world_invD(4) [OF inv] SAlreadyT(1), where q = "SAlready"])
       (simp_all add: SAlreadyT holding_def svc_nth_upd)
  show ?thesis
    by (rule world_inv_call [OF inv SAlreadyT(1), where q = "SAlready"])
       (use SAlreadyT(2-) K mx world_invD(1) [OF inv] in
         \<open>simp_all add: pc_pool_ok_def idle_pc_def svc_nth_upd\<close>)
next
  case (SNilArg s)
  note K = call_okD [OF inv SNilArg(1)]
  have mx: "mutex_ok w'"
    by (rule mutex_same [OF world_invD(4) [OF inv] SNilArg(1), where q = "SPanic NilDereference"])
       (simp_all add: SNilArg holding_def svc_nth_upd)
  show ?thesis
    by (rule world_inv_call [OF inv SNilArg(1), where q = "SPanic NilDereference"])
       (use SNilArg(2-) K mx world_invD(1) [OF inv] in
         \<open>simp_all add: pc_pool_ok_def idle_pc_def svc_nth_upd\<close>)
next
  case (STypedNil s)
  note K = call_okD [OF inv STypedNil(1)]
  have mx: "mutex_ok w'"
    by (rule mutex_same [OF world_invD(4) [OF inv] STypedNil(1), where q = "SUser NilRoutines"])
       (simp_all add: STypedNil holding_def svc_nth_upd)
  show ?thesis
    by (rule world_inv_call [OF inv STypedNil(1), where q = "SUser NilRoutines"])
       (use STypedNil(2-) K mx world_invD(1) [OF inv] in
         \<open>simp_all add: pc_pool_ok_def idle_pc_def svc_nth_upd child_ok_def\<close>)
next
  case (SChildC s m q)
  note K = call_okD [OF inv SChildC(1)]
  have m: "m < nxt (pool w)"
    using K(2) SChildC(5) by (simp add: valid_arg_def valid_ref_def)
  have mv: "pool_move (pool w) q"
    using m SChildC(6) unfolding pool_move_def by blast
  have pw: "pool w' = q" by (simp add: SChildC(7))
  have mx: "mutex_ok w'"
    by (rule mutex_same [OF world_invD(4) [OF inv] SChildC(1),
          where q = "SChild (Impl (Some (nxt (pool w)))) (length (tasks (pool w)))"])
       (simp_all add: SChildC holding_def)
  have pcq: "pc_pool_ok q (SChild (Impl (Some (nxt (pool w)))) (length (tasks (pool w))))"
    using SChildC(6) unfolding Child_Some by (auto simp: pc_pool_ok_def)
  show ?thesis
    by (rule world_inv_call [OF inv SChildC(1),
          where q = "SChild (Impl (Some (nxt (pool w)))) (length (tasks (pool w)))"])
       (use SChildC(2-5) K mx pcq pool_inv_move [OF world_invD(1) [OF inv] mv]
           pool_le_move [OF mv] in \<open>simp_all add: pw, simp_all add: SChildC(7)\<close>)
next
  case (SAlreadyRet s)
  note K = call_okD [OF inv SAlreadyRet(1)]
  have mx: "mutex_ok w'"
    by (rule mutex_unlock [OF world_invD(4) [OF inv] SAlreadyRet(1), where q = "Finished (Inr (Some AlreadyStarted))" and s = s])
       (simp_all add: SAlreadyRet holding_def)
  show ?thesis
    by (rule world_inv_call [OF inv SAlreadyRet(1), where q = "Finished (Inr (Some AlreadyStarted))"])
       (use SAlreadyRet(2-) K mx world_invD(1) [OF inv] in
         \<open>simp_all add: pc_pool_ok_def idle_pc_def svc_nth_upd\<close>)
next
  case (SChildDone s ch k)
  note K = call_okD [OF inv SChildDone(1)]
  have mx: "mutex_ok w'"
    by (rule mutex_same [OF world_invD(4) [OF inv] SChildDone(1), where q = "SUser ch"])
       (simp_all add: SChildDone holding_def)
  have pcq: "pc_pool_ok (pool w) (SUser ch)"
    using child_ok_of_SChild [OF world_invD(1) [OF inv]] K(3) SChildDone(3)
    by (simp add: pc_pool_ok_def)
  show ?thesis
    by (rule world_inv_call [OF inv SChildDone(1), where q = "SUser ch"])
       (use SChildDone(2-) K mx pcq world_invD(1) [OF inv] in
         \<open>simp_all add: idle_pc_def\<close>)
next
  case (SStub s ch)
  note K = call_okD [OF inv SStub(1)]
  have mx: "mutex_ok w'"
    by (rule mutex_same [OF world_invD(4) [OF inv] SStub(1), where q = "SStop ch NilArgument"])
       (simp_all add: SStub holding_def svc_nth_upd)
  show ?thesis
    by (rule world_inv_call [OF inv SStub(1), where q = "SStop ch NilArgument"])
       (use SStub(2-) K mx world_invD(1) [OF inv] in
         \<open>simp_all add: pc_pool_ok_def idle_pc_def svc_nth_upd\<close>)
next
  case (SStopNil s e)
  note K = call_okD [OF inv SStopNil(1)]
  have mx: "mutex_ok w'"
    by (rule mutex_same [OF world_invD(4) [OF inv] SStopNil(1), where q = "SPanic NilDereference"])
       (simp_all add: SStopNil holding_def svc_nth_upd)
  show ?thesis
    by (rule world_inv_call [OF inv SStopNil(1), where q = "SPanic NilDereference"])
       (use SStopNil(2-) K mx world_invD(1) [OF inv] in
         \<open>simp_all add: pc_pool_ok_def idle_pc_def svc_nth_upd\<close>)
next
  case (SStopC s r e h)
  note K = call_okD [OF inv SStopC(1)]
  have mv: "pool_move (pool w) ((pool w)\<lparr>heap := h\<rparr>)"
    using SStopC(4) unfolding pool_move_def by blast
  have mx: "mutex_ok w'"
    by (rule mutex_same [OF world_invD(4) [OF inv] SStopC(1),
          where q = "SWait (Impl r) e (Wait_call r)"])
       (simp_all add: SStopC holding_def)
  have "child_ok (pool w) (Impl r)" using K(3) SStopC(3) by (simp add: pc_pool_ok_def)
  then have pcq: "pc_pool_ok ((pool w)\<lparr>heap := h\<rparr>) (SWait (Impl r) e (Wait_call r))"
    using stopped_after_Stop [OF _ SStopC(4)] by (auto simp: pc_pool_ok_def)
  show ?thesis
    by (rule world_inv_call [OF inv SStopC(1), where q = "SWait (Impl r) e (Wait_call r)"])
       (use SStopC(2,3,5) K mx pcq pool_inv_move [OF world_invD(1) [OF inv] mv]
           pool_le_move [OF mv] in \<open>simp_all add: idle_pc_def\<close>)
next
  case (SWaitStep s ch e q q1)
  note K = call_okD [OF inv SWaitStep(1)]
  have mx: "mutex_ok w'"
    by (rule mutex_same [OF world_invD(4) [OF inv] SWaitStep(1), where q = "SWait ch e q1"])
       (simp_all add: SWaitStep holding_def)
  have pcq: "pc_pool_ok (pool w) (SWait ch e q1)"
    using pc_pool_ok_wait_step [OF _ SWaitStep(4)] K(3) SWaitStep(3) by simp
  show ?thesis
    by (rule world_inv_call [OF inv SWaitStep(1), where q = "SWait ch e q1"])
       (use SWaitStep(2,3,5) K mx pcq world_invD(1) [OF inv] in
         \<open>simp_all add: idle_pc_def\<close>)
next
  case (SWaitDone s ch e r)
  note K = call_okD [OF inv SWaitDone(1)]
  have mx: "mutex_ok w'"
    by (rule mutex_same [OF world_invD(4) [OF inv] SWaitDone(1), where q = "SRetErr ch e"])
       (simp_all add: SWaitDone holding_def)
  have pcq: "pc_pool_ok (pool w) (SRetErr ch e)"
    using K(3) SWaitDone(3) by (auto simp: pc_pool_ok_def)
  show ?thesis
    by (rule world_inv_call [OF inv SWaitDone(1), where q = "SRetErr ch e"])
       (use SWaitDone(2-) K(1,2,4,5) mx pcq world_invD(1) [OF inv] in
         \<open>simp_all add: idle_pc_def\<close>)
next
  case (SRetErrC s ch e)
  note K = call_okD [OF inv SRetErrC(1)]
  have mx: "mutex_ok w'"
    by (rule mutex_unlock [OF world_invD(4) [OF inv] SRetErrC(1), where q = "Finished (Inr (Some e))" and s = s])
       (simp_all add: SRetErrC holding_def)
  show ?thesis
    by (rule world_inv_call [OF inv SRetErrC(1), where q = "Finished (Inr (Some e))"])
       (use SRetErrC(2-) K mx world_invD(1) [OF inv] in
         \<open>simp_all add: pc_pool_ok_def idle_pc_def svc_nth_upd\<close>)
next
  case (SRetOkC s ch)
  note K = call_okD [OF inv SRetOkC(1)]
  have mx: "mutex_ok w'"
    by (rule mutex_unlock [OF world_invD(4) [OF inv] SRetOkC(1), where q = "Finished (Inr None)" and s = s])
       (simp_all add: SRetOkC holding_def)
  show ?thesis
    by (rule world_inv_call [OF inv SRetOkC(1), where q = "Finished (Inr None)"])
       (use SRetOkC(2-) K mx world_invD(1) [OF inv] in
         \<open>simp_all add: pc_pool_ok_def idle_pc_def svc_nth_upd\<close>)
next
  case (SPanicC s x)
  note K = call_okD [OF inv SPanicC(1)]
  have mx: "mutex_ok w'"
    by (rule mutex_unlock [OF world_invD(4) [OF inv] SPanicC(1), where q = "Finished (Inl x)" and s = s])
       (simp_all add: SPanicC holding_def)
  show ?thesis
    by (rule world_inv_call [OF inv SPanicC(1), where q = "Finished (Inl x)"])
       (use SPanicC(2-) K mx world_invD(1) [OF inv] in
         \<open>simp_all add: pc_pool_ok_def idle_pc_def svc_nth_upd\<close>)
next
  case (TLock s)
  note K = call_okD [OF inv TLock(1)]
  have mx: "mutex_ok w'"
    by (rule mutex_lock [OF world_invD(4) [OF inv] TLock(1), where q = "TLocked" and s = s])
       (simp_all add: TLock K(4))
  show ?thesis
    by (rule world_inv_call [OF inv TLock(1), where q = "TLocked"])
       (use TLock(2-) K mx world_invD(1) [OF inv] in
         \<open>simp_all add: pc_pool_ok_def idle_pc_def svc_nth_upd\<close>)
next
  case (TIdle s)
  note K = call_okD [OF inv TIdle(1)]
  have mx: "mutex_ok w'"
    by (rule mutex_same [OF world_invD(4) [OF inv] TIdle(1), where q = "TUnlock"])
       (simp_all add: TIdle holding_def svc_nth_upd)
  show ?thesis
    by (rule world_inv_call [OF inv TIdle(1), where q = "TUnlock"])
       (use TIdle(2-) K mx world_invD(1) [OF inv] in
         \<open>simp_all add: pc_pool_ok_def idle_pc_def svc_nth_upd\<close>)
next
  case (TStop s r h)
  note K = call_okD [OF inv TStop(1)]
  have mv: "pool_move (pool w) ((pool w)\<lparr>heap := h\<rparr>)"
    using TStop(5) unfolding pool_move_def by blast
  have mx: "mutex_ok w'"
    by (rule mutex_same [OF world_invD(4) [OF inv] TStop(1), where q = "TWait (Wait_call r)"])
       (simp_all add: TStop holding_def)
  show ?thesis
    by (rule world_inv_call [OF inv TStop(1), where q = "TWait (Wait_call r)"])
       (use TStop(2,3,6) K mx pool_inv_move [OF world_invD(1) [OF inv] mv]
           pool_le_move [OF mv] in \<open>simp_all add: idle_pc_def pc_pool_ok_def\<close>)
next
  case (TWaitStep s q q1)
  note K = call_okD [OF inv TWaitStep(1)]
  have mx: "mutex_ok w'"
    by (rule mutex_same [OF world_invD(4) [OF inv] TWaitStep(1), where q = "TWait q1"])
       (simp_all add: TWaitStep holding_def svc_nth_upd)
  show ?thesis
    by (rule world_inv_call [OF inv TWaitStep(1), where q = "TWait q1"])
       (use TWaitStep(2-) K mx world_invD(1) [OF inv] in
         \<open>simp_all add: pc_pool_ok_def idle_pc_def svc_nth_upd\<close>)
next
  case (TWaitDone s r)
  note K = call_okD [OF inv TWaitDone(1)]
  have mx: "mutex_ok w'"
    by (rule mutex_same [OF world_invD(4) [OF inv] TWaitDone(1), where q = "TClear"])
       (simp_all add: TWaitDone holding_def svc_nth_upd)
  show ?thesis
    by (rule world_inv_call [OF inv TWaitDone(1), where q = "TClear"])
       (use TWaitDone(2-) K mx world_invD(1) [OF inv] in
         \<open>simp_all add: pc_pool_ok_def idle_pc_def svc_nth_upd\<close>)
next
  case (TClearC s)
  note K = call_okD [OF inv TClearC(1)]
  have mx: "mutex_ok w'"
    by (rule mutex_same [OF world_invD(4) [OF inv] TClearC(1), where q = TUnlock])
       (simp_all add: TClearC holding_def svc_nth_upd)
  show ?thesis
    by (rule world_inv_call [OF inv TClearC(1), where q = TUnlock])
       (use TClearC(2-) K mx world_invD(1) [OF inv] in
         \<open>simp_all add: pc_pool_ok_def idle_pc_def svc_nth_upd routines_nth_upd\<close>)
next
  case (TUnlockC s)
  note K = call_okD [OF inv TUnlockC(1)]
  have mx: "mutex_ok w'"
    by (rule mutex_unlock [OF world_invD(4) [OF inv] TUnlockC(1), where q = "Finished (Inr None)" and s = s])
       (simp_all add: TUnlockC holding_def)
  show ?thesis
    by (rule world_inv_call [OF inv TUnlockC(1), where q = "Finished (Inr None)"])
       (use TUnlockC(2-) K mx world_invD(1) [OF inv] in
         \<open>simp_all add: pc_pool_ok_def idle_pc_def svc_nth_upd\<close>)
qed

lemma user_ret_cases [consumes 1, case_names Ok Err]:
  assumes "user_ret i r w = Next w'"
  obtains
    (Ok) s ch f where "i < length (calls w)" "csvc (calls w ! i) = Some s"
      "cpc (calls w ! i) = SUser ch" "start (svcs w ! s) = UserStart f" "r = None"
      "w' = set_cpc i (SRetOk ch) (set_routines s ch w)"
  | (Err) s ch f e where "i < length (calls w)" "csvc (calls w ! i) = Some s"
      "cpc (calls w ! i) = SUser ch" "start (svcs w ! s) = UserStart f" "r = Some e"
      "w' = set_cpc i (SStop ch e) w"
proof -
  have i: "i < length (calls w)"
    using assms by (auto simp: user_ret_def split: if_splits)
  then obtain s ch where a: "csvc (calls w ! i) = Some s" "cpc (calls w ! i) = SUser ch"
    using assms by (auto simp: user_ret_def Let_def split: option.splits pc.splits)
  then obtain f where f: "start (svcs w ! s) = UserStart f"
    using assms i by (cases "start (svcs w ! s)") (auto simp: user_ret_def Let_def)
  show ?thesis
  proof (cases r)
    case None
    then show ?thesis using assms i a f Ok by (auto simp: user_ret_def Let_def)
  next
    case (Some e)
    then show ?thesis using assms i a f Err by (auto simp: user_ret_def Let_def)
  qed
qed

lemma world_inv_user_ret:
  assumes inv: "world_inv w" and st: "user_ret i r w = Next w'"
  shows "world_inv w'"
  using st
proof (cases rule: user_ret_cases)
  case (Ok s ch f)
  note K = call_okD [OF inv Ok(1)]
  have mx: "mutex_ok w'"
    by (rule mutex_same [OF world_invD(4) [OF inv] Ok(1), where q = "SRetOk ch"])
       (simp_all add: Ok holding_def svc_nth_upd)
  have h: "holds w i s" using Ok(1-3) by (simp add: holds_def holding_def)
  have ch: "child_ok (pool w) ch" using K(3) Ok(3) by (simp add: pc_pool_ok_def)
  show ?thesis
    by (rule world_inv_call [OF inv Ok(1), where q = "SRetOk ch"])
       (use Ok(2-) K(1,2,4,5) mx h ch world_invD(1) [OF inv] in
         \<open>simp_all add: pc_pool_ok_def idle_pc_def svc_nth_upd routines_nth_upd\<close>)
next
  case (Err s ch f e)
  note K = call_okD [OF inv Err(1)]
  have mx: "mutex_ok w'"
    by (rule mutex_same [OF world_invD(4) [OF inv] Err(1), where q = "SStop ch e"])
       (simp_all add: Err holding_def)
  show ?thesis
    by (rule world_inv_call [OF inv Err(1), where q = "SStop ch e"])
       (use Err(2-) K mx world_invD(1) [OF inv] in
         \<open>simp_all add: pc_pool_ok_def idle_pc_def\<close>)
qed

lemma world_inv_new_service:
  assumes inv: "world_inv w"
  shows "world_inv (w\<lparr>svcs := svcs w @ [NewService arg]\<rparr>)"
proof -
  let ?w = "w\<lparr>svcs := svcs w @ [NewService arg]\<rparr>"
  note I = world_invD [OF inv]
  have "call_ok ?w (calls ?w ! i)" if "i < length (calls ?w)" for i
    using I(2) [of i] that
    by (auto simp: call_ok_def valid_svc_def nth_append split: option.splits)
  moreover have "svc_ok (pool ?w) (svcs ?w ! s)" if "s < length (svcs ?w)" for s
    using I(3) [of s] that
    by (auto simp: nth_append svc_ok_def NewService_def child_ok_def less_Suc_eq)
  moreover have "mutex_ok ?w"
    unfolding mutex_ok_def
  proof (intro allI impI)
    fix i s assume "holds ?w i s"
    then have h: "holds w i s" by (simp add: holds_def)
    then have "s < length (svcs w)"
      using I(2) [of i] by (auto simp: holds_def call_ok_def valid_svc_def)
    then show "mut (svcs ?w ! s) \<and> (\<forall>j. holds ?w j s \<longrightarrow> j = i)"
      using I(4) h by (auto simp: mutex_ok_def nth_append holds_def)
  qed
  ultimately show ?thesis using I(1) by (simp add: world_inv_def)
qed

lemma world_inv_new_call:
  assumes inv: "world_inv w" and "valid_svc w me" and "valid_arg (pool w) arg"
    and "q = SEntry \<or> q = TEntry"
  shows "world_inv (w\<lparr>calls := calls w @ [\<lparr>csvc = me, carg = arg, cpc = q\<rparr>]\<rparr>)"
proof -
  let ?c = "\<lparr>csvc = me, carg = arg, cpc = q\<rparr>"
  let ?w = "w\<lparr>calls := calls w @ [?c]\<rparr>"
  note I = world_invD [OF inv]
  have new: "call_ok ?w ?c"
    using assms(2-4)
    by (auto simp: call_ok_def valid_svc_def pc_pool_ok_def idle_pc_def split: option.splits)
  have old: "call_ok ?w c" if "call_ok w c" for c
    using that by (simp add: call_ok_def valid_svc_def split: option.splits)
  have "call_ok ?w (calls ?w ! i)" if "i < length (calls ?w)" for i
    using I(2) [of i] that new old by (auto simp: nth_append less_Suc_eq)
  moreover have "holds ?w i s = holds w i s" for i s
    using assms(4) by (auto simp: holds_def nth_append holding_def less_Suc_eq)
  then have "mutex_ok ?w" using I(4) by (simp add: mutex_ok_def)
  ultimately show ?thesis using I(1,3) by (simp add: world_inv_def)
qed

lemma pool_move_intros:
  "pool_move p p"
  "pool_move p (snd (NewRoutines p))"
  "m < nxt p \<Longrightarrow> Child (Some m) p = Next (ch, q) \<Longrightarrow> pool_move p q"
  "a < nxt p \<Longrightarrow> Go (Some a) UserFn p = Next q \<Longrightarrow> pool_move p q"
  "Stop r (heap p) = Next h \<Longrightarrow> pool_move p (p\<lparr>heap := h\<rparr>)"
  "task_step i p = Next q \<Longrightarrow> pool_move p q"
  "fn_return i p = Next q \<Longrightarrow> pool_move p q"
  "fn_select i b p = Next q \<Longrightarrow> pool_move p q"
  unfolding pool_move_def by blast+

lemma step_pool_move:
  assumes inv: "world_inv w" and st: "step a w = Next w'"
  shows "pool_move (pool w) (pool w')"
proof (cases a)
  case ANewRoutines
  then show ?thesis using st by (auto simp: step_def intro: pool_move_intros)
next
  case (AChild r)
  show ?thesis
  proof (cases r)
    case None
    then show ?thesis using st AChild
      by (auto simp: step_def with_pool_def Child_def split: if_splits intro: pool_move_intros)
  next
    case (Some m)
    then obtain ch where "m < nxt (pool w)" and "Child (Some m) (pool w) = Next (ch, pool w')"
      using st AChild
      by (auto simp: step_def with_pool_def valid_ref_def obind_eq_Next split: if_splits)
    then show ?thesis by (rule pool_move_intros)
  qed
next
  case (AGo r)
  then show ?thesis using st
    by (cases r)
       (auto simp: step_def with_pool_def Go_Some Go_def valid_ref_def
             split: if_splits intro: pool_move_intros)
next
  case (AStop r)
  then show ?thesis using st
    by (auto simp: step_def obind_eq_Next split: if_splits intro: pool_move_intros)
next
  case (AWait r)
  then show ?thesis using st by (auto simp: step_def split: if_splits intro: pool_move_intros)
next
  case (ATask i)
  then show ?thesis using st
    by (auto simp: step_def with_pool_def obind_eq_Next intro: pool_move_intros)
next
  case (AReturn i)
  then show ?thesis using st
    by (auto simp: step_def with_pool_def obind_eq_Next intro: pool_move_intros)
next
  case (ASelect i b)
  then show ?thesis using st
    by (auto simp: step_def with_pool_def obind_eq_Next intro: pool_move_intros)
next
  case (AWaiter i)
  then show ?thesis using st
    by (auto simp: step_def obind_eq_Next split: if_splits intro: pool_move_intros)
next
  case (ANewService arg)
  then show ?thesis using st by (auto simp: step_def intro: pool_move_intros)
next
  case (AStart me arg)
  then show ?thesis using st by (auto simp: step_def split: if_splits intro: pool_move_intros)
next
  case (AStopService me)
  then show ?thesis using st by (auto simp: step_def split: if_splits intro: pool_move_intros)
next
  case (ACall i)
  then have cs: "call_step i w = Next w'" using st by (simp add: step_def)
  then show ?thesis
  proof (cases rule: call_step_cases)
    case (SChildC s m q)
    have "m < nxt (pool w)"
      using call_okD(2) [OF inv SChildC(1)] SChildC(5) by (simp add: valid_arg_def valid_ref_def)
    then show ?thesis using SChildC(6,7) by (auto intro: pool_move_intros)
  next
    case (SStopC s r e h)
    then show ?thesis by (auto intro: pool_move_intros)
  next
    case (TStop s r h)
    then show ?thesis by (auto intro: pool_move_intros)
  qed (simp_all add: pool_move_intros)
next
  case (AUserRet i r)
  then have "user_ret i r w = Next w'" using st by (simp add: step_def)
  then show ?thesis by (cases rule: user_ret_cases) (simp_all add: pool_move_intros)
qed

lemma world_inv_step:
  assumes inv: "world_inv w" and st: "step a w = Next w'"
  shows "world_inv w'"
proof -
  note mv = step_pool_move [OF inv st]
  have pool_only: "world_inv w'" if "svcs w' = svcs w" "calls w' = calls w"
    using world_inv_pool [OF inv mv that] by simp
  show ?thesis
  proof (cases a)
    case (ANewService arg)
    then show ?thesis using st world_inv_new_service [OF inv, of arg] by (auto simp: step_def)
  next
    case (AStart me arg)
    then show ?thesis using st world_inv_new_call [OF inv, of me arg SEntry]
      by (auto simp: step_def split: if_splits)
  next
    case (AStopService me)
    then show ?thesis using st world_inv_new_call [OF inv, of me NilRoutines TEntry]
      by (auto simp: step_def valid_arg_def split: if_splits)
  next
    case (ACall i)
    then show ?thesis using st world_inv_call_step [OF inv] by (simp add: step_def)
  next
    case (AUserRet i r)
    then show ?thesis using st world_inv_user_ret [OF inv] by (simp add: step_def)
  next
    case ANewRoutines
    then have "svcs w' = svcs w" "calls w' = calls w"
      using st by (auto simp: step_def with_pool_def obind_eq_Next split: if_splits)
    then show ?thesis by (rule pool_only)
  next
    case (AChild r)
    then have "svcs w' = svcs w" "calls w' = calls w"
      using st by (auto simp: step_def with_pool_def obind_eq_Next split: if_splits)
    then show ?thesis by (rule pool_only)
  next
    case (AGo r)
    then have "svcs w' = svcs w" "calls w' = calls w"
      using st by (auto simp: step_def with_pool_def obind_eq_Next split: if_splits)
    then show ?thesis by (rule pool_only)
  next
    case (AStop r)
    then have "svcs w' = svcs w" "calls w' = calls w"
      using st by (auto simp: step_def with_pool_def obind_eq_Next split: if_splits)
    then show ?thesis by (rule pool_only)
  next
    case (AWait r)
    then have "svcs w' = svcs w" "calls w' = calls w"
      using st by (auto simp: step_def with_pool_def obind_eq_Next split: if_splits)
    then show ?thesis by (rule pool_only)
  next
    case (ATask i)
    then have "svcs w' = svcs w" "calls w' = calls w"
      using st by (auto simp: step_def with_pool_def obind_eq_Next split: if_splits)
    then show ?thesis by (rule pool_only)
  next
    case (AReturn i)
    then have "svcs w' = svcs w" "calls w' = calls w"
      using st by (auto simp: step_def with_pool_def obind_eq_Next split: if_splits)
    then show ?thesis by (rule pool_only)
  next
    case (ASelect i b)
    then have "svcs w' = svcs w" "calls w' = calls w"
      using st by (auto simp: step_def with_pool_def obind_eq_Next split: if_splits)
    then show ?thesis by (rule pool_only)
  next
    case (AWaiter i)
    then have "svcs w' = svcs w" "calls w' = calls w"
      using st by (auto simp: step_def with_pool_def obind_eq_Next split: if_splits)
    then show ?thesis by (rule pool_only)
  qed
qed

lemma world_inv_init: "world_inv init"
  by (simp add: world_inv_def init_def pool_inv_def own_count_def child_count_def
      mutex_ok_def holds_def)

lemma world_inv_run:
  "world_inv w \<Longrightarrow> run as w = Next w' \<Longrightarrow> world_inv w'"
proof (induction as arbitrary: w)
  case Nil
  then show ?case by simp
next
  case (Cons a as)
  then show ?case by (auto simp: obind_eq_Next intro: world_inv_step)
qed

lemma reachable_inv: "reachable w \<Longrightarrow> world_inv w"
  unfolding reachable_def reaches_def using world_inv_run [OF world_inv_init] by blast

lemma run_append: "run (as @ bs) w = obind (run as w) (run bs)"
  by (induction as arbitrary: w) (auto simp: obind_def split: outcome.splits)

lemma reaches_refl [simp]: "reaches w w"
  unfolding reaches_def by (rule exI [of _ "[]"]) simp

lemma reaches_step: "step a w = Next w' \<Longrightarrow> reaches w w'"
  unfolding reaches_def by (rule exI [of _ "[a]"]) simp

lemma reaches_trans: "reaches w w1 \<Longrightarrow> reaches w1 w2 \<Longrightarrow> reaches w w2"
  unfolding reaches_def
proof -
  assume "\<exists>as. run as w = Next w1" and "\<exists>bs. run bs w1 = Next w2"
  then obtain as bs where "run as w = Next w1" "run bs w1 = Next w2" by blast
  then have "run (as @ bs) w = Next w2" by (simp add: run_append)
  then show "\<exists>cs. run cs w = Next w2" by blast
qed

lemma reachable_init [simp]: "reachable init"
  by (simp add: reachable_def)

lemma reachable_step: "reachable w \<Longrightarrow> step a w = Next w' \<Longrightarrow> reachable w'"
  unfolding reachable_def using reaches_trans reaches_step by blast


lemma run_induct [consumes 1, case_names base step]:
  assumes "run as w0 = Next w" and "P w0"
    and "\<And>w a w'. reaches w0 w \<Longrightarrow> P w \<Longrightarrow> step a w = Next w' \<Longrightarrow> P w'"
  shows "P w"
  using assms(1)
proof (induction as arbitrary: w rule: rev_induct)
  case Nil
  then show ?case using assms(2) by simp
next
  case (snoc a as)
  then obtain u where u: "run as w0 = Next u" "step a u = Next w"
    by (auto simp: run_append obind_eq_Next)
  have "reaches w0 u" using u(1) unfolding reaches_def by blast
  then show ?case using snoc.IH [OF u(1)] u(2) assms(3) by blast
qed

lemma reachable_induct [consumes 1, case_names init step]:
  assumes "reachable w" and "P init"
    and "\<And>w a w'. reachable w \<Longrightarrow> P w \<Longrightarrow> step a w = Next w' \<Longrightarrow> P w'"
  shows "P w"
proof -
  obtain as where "run as init = Next w" using assms(1) by (auto simp: reachable_def reaches_def)
  then show ?thesis
    by (induction rule: run_induct) (use assms(2,3) in \<open>auto simp: reachable_def\<close>)
qed

lemma step_waits:
  assumes "step a w = Next w'"
  shows "length (waits w) \<le> length (waits w')"
    and "i < length (waits w) \<Longrightarrow>
           waits w' ! i = waits w ! i
         \<or> (a = AWaiter i \<and> wait_step (heap (pool w)) (waits w ! i) = Next (waits w' ! i))"
    and "length (waits w) \<le> i \<Longrightarrow> i < length (waits w') \<Longrightarrow> \<exists>r. waits w' ! i = Wait_call r \<and> valid_ref (pool w) r"
proof -
  have *: "length (waits w) \<le> length (waits w')
    \<and> (i < length (waits w) \<longrightarrow>
           waits w' ! i = waits w ! i
         \<or> (a = AWaiter i \<and> wait_step (heap (pool w)) (waits w ! i) = Next (waits w' ! i)))
    \<and> (length (waits w) \<le> i \<longrightarrow> i < length (waits w') \<longrightarrow> (\<exists>r. waits w' ! i = Wait_call r \<and> valid_ref (pool w) r))"
  proof (cases a)
    case (ACall j)
    then have "call_step j w = Next w'" using assms by (simp add: step_def)
    then show ?thesis by (cases rule: call_step_cases) simp_all
  next
    case (AUserRet j r)
    then have "user_ret j r w = Next w'" using assms by (simp add: step_def)
    then show ?thesis by (cases rule: user_ret_cases) simp_all
  next
    case (AWaiter j)
    then show ?thesis using assms
      by (auto simp: step_def obind_eq_Next nth_list_update split: if_splits)
  next
    case (AWait r)
    then show ?thesis using assms
      by (auto simp: step_def nth_append less_Suc_eq split: if_splits)
  qed (use assms in \<open>auto simp: step_def with_pool_def obind_eq_Next split: if_splits\<close>)
  show "length (waits w) \<le> length (waits w')"
    and "i < length (waits w) \<Longrightarrow>
           waits w' ! i = waits w ! i
         \<or> (a = AWaiter i \<and> wait_step (heap (pool w)) (waits w ! i) = Next (waits w' ! i))"
    and "length (waits w) \<le> i \<Longrightarrow> i < length (waits w') \<Longrightarrow> \<exists>r. waits w' ! i = Wait_call r \<and> valid_ref (pool w) r"
    using * by blast+
qed

lemma wpc_ok_mono: "pool_le p q \<Longrightarrow> wpc_ok p c \<Longrightarrow> wpc_ok q c"
  by (auto simp: wpc_ok_def pool_le_def split: wpc.splits)

lemma wpc_ok_wait_step: "wait_step h c = Next c' \<Longrightarrow> wpc_ok p c \<Longrightarrow> wpc_ok p c'"
  by (auto simp: wpc_ok_def wait_step_def obind_eq_Next split: wpc.splits)

lemma reachable_waits_ok:
  assumes "reachable w"
  shows "waits_ok w"
  using assms
proof (induction rule: reachable_induct)
  case init
  then show ?case by (simp add: waits_ok_def init_def)
next
  case (step w a w')
  have le: "pool_le (pool w) (pool w')"
    using pool_le_move [OF step_pool_move [OF reachable_inv [OF step.hyps(1)] step.hyps(2)]] .
  show ?case
    unfolding waits_ok_def
  proof (intro allI impI)
    fix i assume i: "i < length (waits w')"
    show "wpc_ok (pool w') (waits w' ! i)"
    proof (cases "i < length (waits w)")
      case True
      then have "wpc_ok (pool w) (waits w ! i)" using step.IH by (simp add: waits_ok_def)
      then show ?thesis using step_waits(2) [OF step.hyps(2) True] le
        by (auto intro: wpc_ok_mono wpc_ok_wait_step)
    next
      case False
      then obtain r where "waits w' ! i = Wait_call r" "valid_ref (pool w) r"
        using step_waits(3) [OF step.hyps(2), of i] i by auto
      then have "wpc_ok (pool w) (waits w' ! i)"
        by (auto simp: wpc_ok_def Wait_call_def valid_ref_def split: option.splits)
      then show ?thesis using le by (rule wpc_ok_mono [rotated])
    qed
  qed
qed

lemma own_count_0: "own_count p n = 0 \<longleftrightarrow> (\<forall>t\<in>set (tasks p). tnode t = n \<longrightarrow> tpc t = GExit)"
  by (auto simp: own_count_def filter_empty_conv)

lemma child_count_0:
  "child_count p n = 0 \<longleftrightarrow>
     (\<forall>t\<in>set (tasks p). parent (heap p (tnode t)) = Some n \<longrightarrow> \<not> counted (tpc t))"
  by (auto simp: child_count_def filter_empty_conv)

lemma waiter_step:
  assumes "i < length (waits w)"
  shows "step (AWaiter i) w = Next w' \<longleftrightarrow>
     (\<exists>q. wait_step (heap (pool w)) (waits w ! i) = Next q \<and> w' = w\<lparr>waits := (waits w)[i := q]\<rparr>)"
  using assms by (auto simp: step_def obind_eq_Next)

lemma wait_step_Next:
  "wait_step h q = Next q' \<longleftrightarrow>
     (\<exists>n. (q = WChildren n \<and> children (h n) = 0 \<and> q' = WOwn n)
        \<or> (q = WOwn n \<and> waitgroup (h n) = 0 \<and> q' = WReturned (Some n)))"
  by (cases q) (auto simp: wait_step_def wg_Wait_def obind_eq_Next)

lemma wait_history:
  assumes "reachable w" and "i < length (waits w)"
  shows "(waits w ! i = WOwn n \<longrightarrow>
           (\<exists>w1 w1'. reachable w1 \<and> waits w1 ! i = WChildren n
               \<and> children (heap (pool w1) n) = 0
               \<and> step (AWaiter i) w1 = Next w1' \<and> waits w1' ! i = WOwn n \<and> reaches w1' w))
       \<and> (waits w ! i = WReturned (Some n) \<longrightarrow>
           (\<exists>w1 w1' w2 w2'. reachable w1 \<and> waits w1 ! i = WChildren n
               \<and> children (heap (pool w1) n) = 0
               \<and> step (AWaiter i) w1 = Next w1' \<and> waits w1' ! i = WOwn n \<and> reaches w1' w2
               \<and> waits w2 ! i = WOwn n \<and> waitgroup (heap (pool w2) n) = 0
               \<and> step (AWaiter i) w2 = Next w2' \<and> reaches w2' w))"
  using assms
proof (induction arbitrary: i n rule: reachable_induct)
  case init
  then show ?case by (simp add: init_def)
next
  case (step w a w')
  let ?H1 = "\<lambda>w. \<exists>w1 w1'. reachable w1 \<and> waits w1 ! i = WChildren n
               \<and> children (heap (pool w1) n) = 0
               \<and> step (AWaiter i) w1 = Next w1' \<and> waits w1' ! i = WOwn n \<and> reaches w1' w"
  let ?H2 = "\<lambda>w. \<exists>w1 w1' w2 w2'. reachable w1 \<and> waits w1 ! i = WChildren n
               \<and> children (heap (pool w1) n) = 0
               \<and> step (AWaiter i) w1 = Next w1' \<and> waits w1' ! i = WOwn n \<and> reaches w1' w2
               \<and> waits w2 ! i = WOwn n \<and> waitgroup (heap (pool w2) n) = 0
               \<and> step (AWaiter i) w2 = Next w2' \<and> reaches w2' w"
  note st = step.hyps(2)
  have ext: "reaches u w \<Longrightarrow> reaches u w'" for u
    using reaches_trans reaches_step [OF st] by blast
  have keep1: "?H1 w \<Longrightarrow> ?H1 w'" using ext by blast
  have keep2: "?H2 w \<Longrightarrow> ?H2 w'" using ext by blast
  show ?case
  proof (cases "i < length (waits w)")
    case False
    then obtain r where "waits w' ! i = Wait_call r"
      using step_waits(3) [OF st, of i] step.prems by auto
    then show ?thesis by (auto simp: Wait_call_def split: option.splits)
  next
    case True
    note IH = step.IH [OF True, of n]
    from step_waits(2) [OF st True]
    show ?thesis
    proof
      assume "waits w' ! i = waits w ! i"
      then show ?thesis using IH keep1 keep2 by auto
    next
      assume a: "a = AWaiter i \<and> wait_step (heap (pool w)) (waits w ! i) = Next (waits w' ! i)"
      then have sa: "step (AWaiter i) w = Next w'" using st by simp
      from a obtain m where m: "(waits w ! i = WChildren m \<and> children (heap (pool w) m) = 0
            \<and> waits w' ! i = WOwn m)
          \<or> (waits w ! i = WOwn m \<and> waitgroup (heap (pool w) m) = 0
            \<and> waits w' ! i = WReturned (Some m))"
        unfolding wait_step_Next by blast
      then show ?thesis
      proof
        assume c: "waits w ! i = WChildren m \<and> children (heap (pool w) m) = 0
            \<and> waits w' ! i = WOwn m"
        have "?H1 w'" if "m = n"
          using c that step.hyps(1) sa reaches_refl by blast
        then show ?thesis using c by auto
      next
        assume c: "waits w ! i = WOwn m \<and> waitgroup (heap (pool w) m) = 0
            \<and> waits w' ! i = WReturned (Some m)"
        have "?H2 w'" if "m = n"
        proof -
          have "?H1 w" using step.IH [OF True, of n] c that by simp
          then obtain w1 w1' where "reachable w1" "waits w1 ! i = WChildren n"
            "children (heap (pool w1) n) = 0" "step (AWaiter i) w1 = Next w1'"
            "waits w1' ! i = WOwn n" "reaches w1' w" by blast
          then show ?thesis using c that sa reaches_refl by blast
        qed
        then show ?thesis using c by auto
      qed
    qed
  qed
qed

lemma completes_result: "completes r \<Longrightarrow> r = Next (result_of r)"
  by (cases r) (simp_all add: completes_def result_of_def)

lemma reachable_result: "completes (run as init) \<Longrightarrow> reachable (result_of (run as init))"
  unfolding reachable_def reaches_def using completes_result by blast

lemma set_pc_simps [simp]:
  "heap (set_pc i q p) = heap p" "nxt (set_pc i q p) = nxt p"
  "length (tasks (set_pc i q p)) = length (tasks p)"
  "i < length (tasks p) \<Longrightarrow> tasks (set_pc i q p) ! i = (tasks p ! i)\<lparr>tpc := q\<rparr>"
  by (simp_all add: set_pc_def)

text \<open>Nothing but a direct Stop closes the channel of a root.\<close>

lemma task_step_root:
  assumes "pool_inv p" and "task_step i p = Next q" and "parent (heap p r) = None"
  shows "doneCh (heap q r) = doneCh (heap p r)"
proof -
  have i: "i < length (tasks p)"
    using assms(2) by (auto simp: task_step_def split: if_splits)
  have ok: "task_ok p (tasks p ! i)" using pool_invD(1) [OF assms(1)] i by simp
  show ?thesis
  proof (cases "tpc (tasks p ! i)")
    case GFwd
    then obtain m c where b: "tbody (tasks p ! i) = Propagate m c"
      using ok by (cases "tbody (tasks p ! i)") (auto simp: task_ok_def)
    then have "c \<noteq> r" using ok assms(3) by (auto simp: task_ok_def)
    then show ?thesis using assms(2) i GFwd b by (auto simp: task_step_def Let_def)
  next
    case GAdded
    then show ?thesis using assms(2) i
      by (cases "parent (heap p (tnode (tasks p ! i)))") (auto simp: task_step_def Let_def)
  next
    case GRet
    then show ?thesis using assms(2) i
      by (cases "parent (heap p (tnode (tasks p ! i)))")
         (auto simp: task_step_def Let_def obind_eq_Next childrenDown_eq_Next)
  next
    case GDown
    then show ?thesis using assms(2) i
      by (auto simp: task_step_def Let_def obind_eq_Next waitgroup_Done_eq_Next)
  qed (use assms(2) i in \<open>auto simp: task_step_def Let_def\<close>)
qed

lemma step_root:
  assumes inv: "world_inv w" and st: "step a w = Next w'"
    and r: "r < nxt (pool w)" "parent (heap (pool w) r) = None" and a: "a \<noteq> AStop (Some r)"
  shows "doneCh (heap (pool w') r) = doneCh (heap (pool w) r)"
proof (cases a)
  case ANewRoutines
  then show ?thesis using st r by (auto simp: step_def NewRoutines_def)
next
  case (AChild x)
  note A = this
  show ?thesis
  proof (cases x)
    case None
    then show ?thesis using st A by (auto simp: step_def with_pool_def Child_def valid_ref_def)
  next
    case (Some m)
    then show ?thesis using st A r
      by (auto simp: step_def with_pool_def Child_Some split: if_splits)
  qed
next
  case (AGo x)
  note A = this
  show ?thesis
  proof (cases x)
    case None
    then show ?thesis using st A by (auto simp: step_def with_pool_def Go_def valid_ref_def)
  next
    case (Some m)
    then show ?thesis using st A r
      by (auto simp: step_def with_pool_def Go_Some split: if_splits)
  qed
next
  case (AStop x)
  then show ?thesis using st a
    by (cases x) (auto simp: step_def split: if_splits)
next
  case (ATask i)
  then show ?thesis using st task_step_root [OF world_invD(1) [OF inv] _ r(2)]
    by (auto simp: step_def with_pool_def obind_eq_Next)
next
  case (AReturn i)
  then show ?thesis using st
    by (auto simp: step_def with_pool_def obind_eq_Next fn_return_def split: if_splits)
next
  case (ASelect i b)
  then show ?thesis using st
    by (auto simp: step_def with_pool_def obind_eq_Next fn_select_def
             split: if_splits body.splits)
next
  case (ACall i)
  then have cs: "call_step i w = Next w'" using st by (simp add: step_def)
  then show ?thesis
  proof (cases rule: call_step_cases)
    case (SChildC s m q)
    then show ?thesis using r unfolding Child_Some by auto
  next
    case (SStopC s x e h)
    have "child_ok (pool w) (Impl x)"
      using call_okD(3) [OF inv SStopC(1)] SStopC(3) by (simp add: pc_pool_ok_def)
    then show ?thesis using SStopC(4,5) r(2) by (cases x) (auto simp: child_ok_def)
  next
    case (TStop s x h)
    have "child_ok (pool w) (Impl x)"
      using world_invD(3) [OF inv call_okD(4) [OF inv TStop(1,2)]] TStop(4)
      by (simp add: svc_ok_def)
    then show ?thesis using TStop(5,6) r(2) by (cases x) (auto simp: child_ok_def)
  qed simp_all
next
  case (AUserRet i x)
  then have "user_ret i x w = Next w'" using st by (simp add: step_def)
  then show ?thesis by (cases rule: user_ret_cases) simp_all
qed (use st in \<open>auto simp: step_def obind_eq_Next split: if_splits\<close>)

lemma run_root:
  assumes "world_inv w" and "run as w = Next w'"
    and "r < nxt (pool w)" and "parent (heap (pool w) r) = None" and "AStop (Some r) \<notin> set as"
  shows "doneCh (heap (pool w') r) = doneCh (heap (pool w) r)"
  using assms
proof (induction as arbitrary: w)
  case Nil
  then show ?case by simp
next
  case (Cons a as)
  then obtain u where u: "step a w = Next u" "run as u = Next w'"
    by (auto simp: obind_eq_Next)
  have le: "pool_le (pool w) (pool u)"
    using pool_le_move [OF step_pool_move [OF Cons.prems(1) u(1)]] .
  have "doneCh (heap (pool w') r) = doneCh (heap (pool u) r)"
    using Cons.IH [OF world_inv_step [OF Cons.prems(1) u(1)] u(2)] le Cons.prems(3-5)
    by (auto simp: pool_le_def)
  moreover have "doneCh (heap (pool u) r) = doneCh (heap (pool w) r)"
    using step_root [OF Cons.prems(1) u(1) Cons.prems(3,4)] Cons.prems(5) by auto
  ultimately show ?case by simp
qed

lemma run_pool_le:
  "world_inv w \<Longrightarrow> run as w = Next w' \<Longrightarrow> pool_le (pool w) (pool w')"
proof (induction as arbitrary: w)
  case Nil
  then show ?case by simp
next
  case (Cons a as)
  then obtain u where u: "step a w = Next u" "run as u = Next w'"
    by (auto simp: obind_eq_Next)
  show ?case
    using pool_le_move [OF step_pool_move [OF Cons.prems(1) u(1)]]
      Cons.IH [OF world_inv_step [OF Cons.prems(1) u(1)] u(2)]
    by (rule pool_le_trans)
qed

lemma prop_task_facts:
  assumes "world_inv w" and "k < length (tasks (pool w))"
    and "tbody (tasks (pool w) ! k) = Propagate r c"
  shows "parent (heap (pool w) c) = Some r" and "c < nxt (pool w)" and "r < c"
    and "tnode (tasks (pool w) ! k) = c"
    and "past_body (tpc (tasks (pool w) ! k)) \<Longrightarrow> doneCh (heap (pool w) c) = Closed"
proof -
  note I = pool_invD [OF world_invD(1) [OF assms(1)]]
  have ok: "task_ok (pool w) (tasks (pool w) ! k)" using I(1) assms(2) by simp
  show "parent (heap (pool w) c) = Some r" and "c < nxt (pool w)"
    and "tnode (tasks (pool w) ! k) = c"
    and "past_body (tpc (tasks (pool w) ! k)) \<Longrightarrow> doneCh (heap (pool w) c) = Closed"
    using ok assms(3) by (auto simp: task_ok_def)
  then show "r < c" using I(3) by blast
qed

lemma own_step:
  assumes inv: "world_inv w" and k: "k < length (tasks (pool w))"
    and b: "tbody (tasks (pool w) ! k) = Propagate r c"
    and cl: "doneCh (heap (pool w) r) = Closed"
    and rk: "rank (tpc (tasks (pool w) ! k)) < 4"
  shows "\<exists>w1. step (prop_next k w) w = Next w1
          \<and> rank (tpc (tasks (pool w1) ! k)) = Suc (rank (tpc (tasks (pool w) ! k)))
          \<and> k < length (tasks (pool w1)) \<and> tbody (tasks (pool w1) ! k) = Propagate r c
          \<and> doneCh (heap (pool w1) r) = Closed
          \<and> (tpc (tasks (pool w) ! k) = GFwd \<longrightarrow> doneCh (heap (pool w1) c) = Closed)"
proof (cases "tpc (tasks (pool w) ! k)")
  case GAdded
  then show ?thesis using k b cl
    by (cases "parent (heap (pool w) (tnode (tasks (pool w) ! k)))")
       (auto simp: prop_next_def step_def with_pool_def task_step_def Let_def)
next
  case GUp
  then show ?thesis using k b cl
    by (auto simp: prop_next_def step_def with_pool_def task_step_def Let_def)
next
  case GRun
  then show ?thesis using k b cl
    by (auto simp: prop_next_def step_def with_pool_def fn_select_def recv_ready_def Done_def)
next
  case GFwd
  then show ?thesis using k b cl
    by (auto simp: prop_next_def step_def with_pool_def task_step_def Let_def)
qed (use rk in auto)

lemma drive_closes:
  "world_inv w \<Longrightarrow> k < length (tasks (pool w)) \<Longrightarrow>
   tbody (tasks (pool w) ! k) = Propagate r c \<Longrightarrow> doneCh (heap (pool w) r) = Closed \<Longrightarrow>
   4 \<le> rank (tpc (tasks (pool w) ! k)) + m \<Longrightarrow>
   \<exists>n\<le>m. \<exists>w'. drive n k w = Next w' \<and> doneCh (heap (pool w') c) = Closed"
proof (induction m arbitrary: w)
  case 0
  then have "past_body (tpc (tasks (pool w) ! k))"
    by (cases "tpc (tasks (pool w) ! k)") (auto simp: past_body_def)
  then have "doneCh (heap (pool w) c) = Closed"
    using prop_task_facts(5) [OF "0.prems"(1-3)] by simp
  then show ?case by (intro exI [of _ 0]) simp
next
  case (Suc m)
  show ?case
  proof (cases "rank (tpc (tasks (pool w) ! k)) < 4")
    case False
    then have "past_body (tpc (tasks (pool w) ! k))"
      by (cases "tpc (tasks (pool w) ! k)") (auto simp: past_body_def)
    then have "doneCh (heap (pool w) c) = Closed"
      using prop_task_facts(5) [OF Suc.prems(1-3)] by simp
    then show ?thesis by (intro exI [of _ 0]) simp
  next
    case True
    from own_step [OF Suc.prems(1-4) True]
    obtain w1 where w1: "step (prop_next k w) w = Next w1"
      "rank (tpc (tasks (pool w1) ! k)) = Suc (rank (tpc (tasks (pool w) ! k)))"
      "k < length (tasks (pool w1))" "tbody (tasks (pool w1) ! k) = Propagate r c"
      "doneCh (heap (pool w1) r) = Closed" by blast
    have "4 \<le> rank (tpc (tasks (pool w1) ! k)) + m" using w1(2) Suc.prems(5) by simp
    from Suc.IH [OF world_inv_step [OF Suc.prems(1) w1(1)] w1(3,4,5) this]
    obtain n w' where "n \<le> m" "drive n k w1 = Next w'" "doneCh (heap (pool w') c) = Closed"
      by blast
    then show ?thesis using w1(1) by (intro exI [of _ "Suc n"]) simp
  qed
qed

lemma task_step_GFwd:
  "task_step k p = Next q \<Longrightarrow> tpc (tasks p ! k) = GFwd \<Longrightarrow> tpc (tasks q ! k) = GRet"
  by (auto simp: task_step_def Let_def obind_eq_Next split: if_splits body.splits)

lemma forwards_none:
  "world_inv w \<Longrightarrow> k < length (tasks (pool w)) \<Longrightarrow> 3 < rank (tpc (tasks (pool w) ! k)) \<Longrightarrow>
   forwards k as w = 0"
proof (induction as arbitrary: w)
  case Nil
  then show ?case by simp
next
  case (Cons a as)
  show ?case
  proof (cases "step a w")
    case (Next u)
    have le: "pool_le (pool w) (pool u)"
      using pool_le_move [OF step_pool_move [OF Cons.prems(1) Next]] .
    then have "k < length (tasks (pool u))" "3 < rank (tpc (tasks (pool u) ! k))"
      using Cons.prems(2,3) by (auto simp: pool_le_def)
    then have "forwards k as u = 0"
      using Cons.IH [OF world_inv_step [OF Cons.prems(1) Next]] by simp
    moreover have "tpc (tasks (pool w) ! k) \<noteq> GFwd" using Cons.prems(3) by auto
    ultimately show ?thesis using Next by simp
  qed simp_all
qed

lemma forwards_le_1: "world_inv w \<Longrightarrow> forwards k as w \<le> 1"
proof (induction as arbitrary: w)
  case Nil
  then show ?case by simp
next
  case (Cons a as)
  show ?case
  proof (cases "step a w")
    case (Next u)
    note inv' = world_inv_step [OF Cons.prems Next]
    show ?thesis
    proof (cases "a = ATask k \<and> tpc (tasks (pool w) ! k) = GFwd")
      case False
      then show ?thesis using Next Cons.IH [OF inv'] by auto
    next
      case True
      then have ts: "task_step k (pool w) = Next (pool u)"
        using Next by (auto simp: step_def with_pool_def obind_eq_Next)
      then have k: "k < length (tasks (pool w))"
        by (auto simp: task_step_def split: if_splits)
      have "tpc (tasks (pool u) ! k) = GRet"
        using task_step_GFwd [OF ts] True by simp
      moreover have "k < length (tasks (pool u))"
        using pool_le_move [OF step_pool_move [OF Cons.prems Next]] k by (auto simp: pool_le_def)
      ultimately have "forwards k as u = 0"
        using forwards_none [OF inv', of k as] by simp
      then show ?thesis using Next True by simp
    qed
  qed simp_all
qed

lemma calls_frame:
  assumes "step a w = Next w'" and "i < length (calls w)"
    and "a \<noteq> ACall i" and "\<And>r. a \<noteq> AUserRet i r"
  shows "calls w' ! i = calls w ! i" and "i < length (calls w')"
proof -
  have "calls w' ! i = calls w ! i \<and> i < length (calls w')"
  proof (cases a)
    case (ACall j)
    then have "call_step j w = Next w'" using assms(1) by (simp add: step_def)
    then show ?thesis using assms(2,3) ACall
      by (cases rule: call_step_cases) simp_all
  next
    case (AUserRet j r)
    then have "user_ret j r w = Next w'" using assms(1) by (simp add: step_def)
    then show ?thesis using assms(2) assms(4) [of r] AUserRet
      by (cases rule: user_ret_cases) simp_all
  qed (use assms(1,2) in \<open>auto simp: step_def with_pool_def obind_eq_Next nth_append
         split: if_splits\<close>)
  then show "calls w' ! i = calls w ! i" and "i < length (calls w')" by simp_all
qed

lemma routines_frame:
  assumes inv: "world_inv w" and st: "step a w = Next w'" and h: "holds w i s"
    and "a \<noteq> ACall i" and "\<And>r. a \<noteq> AUserRet i r"
  shows "routines (svcs w' ! s) = routines (svcs w ! s)"
proof -
  have i: "i < length (calls w)" and cs: "csvc (calls w ! i) = Some s"
    using h by (simp_all add: holds_def)
  have s: "s < length (svcs w)" using call_okD(4) [OF inv i cs] .
  have other: "t \<noteq> s" if "holds w j t" "j \<noteq> i" for j t
    using world_invD(4) [OF inv] h that by (auto simp: mutex_ok_def)
  show ?thesis
  proof (cases a)
    case (ACall j)
    then have j: "j \<noteq> i" using assms(4) by simp
    have "call_step j w = Next w'" using ACall st by (simp add: step_def)
    then show ?thesis
    proof (cases rule: call_step_cases)
      case (TClearC t)
      then have "holds w j t" by (simp add: holds_def holding_def)
      then have "t \<noteq> s" using other j by blast
      then show ?thesis using TClearC by (simp add: routines_nth_upd)
    qed (simp_all add: svc_nth_upd)
  next
    case (AUserRet j r)
    then have j: "j \<noteq> i" using assms(5) [of r] by auto
    have "user_ret j r w = Next w'" using AUserRet st by (simp add: step_def)
    then show ?thesis
    proof (cases rule: user_ret_cases)
      case (Ok t ch f)
      then have "holds w j t" by (simp add: holds_def holding_def)
      then have "t \<noteq> s" using other j by blast
      then show ?thesis using Ok by (simp add: routines_nth_upd)
    qed simp_all
  next
    case (ANewService arg)
    then show ?thesis using st s by (auto simp: step_def nth_append)
  qed (use st in \<open>auto simp: step_def with_pool_def obind_eq_Next split: if_splits\<close>)
qed

lemma already_started_run:
  assumes "world_inv w" and "run as w = Next w'"
    and "i < length (calls w)" and "csvc (calls w ! i) = Some s"
    and "(cpc (calls w ! i) = SLocked \<or> cpc (calls w ! i) = SAlready)
           \<and> routines (svcs w ! s) = R
         \<or> cpc (calls w ! i) = Finished (Inr (Some AlreadyStarted))"
    and "R \<noteq> NilRoutines"
  shows "i < length (calls w') \<and> csvc (calls w' ! i) = Some s
       \<and> ((cpc (calls w' ! i) = SLocked \<or> cpc (calls w' ! i) = SAlready)
              \<and> routines (svcs w' ! s) = R
           \<or> cpc (calls w' ! i) = Finished (Inr (Some AlreadyStarted)))"
  using assms
proof (induction as arbitrary: w)
  case Nil
  then show ?case by simp
next
  case (Cons a as)
  then obtain u where u: "step a w = Next u" "run as u = Next w'"
    by (auto simp: obind_eq_Next)
  note inv = Cons.prems(1)
  note i = Cons.prems(3) and cs = Cons.prems(4)
  have "i < length (calls u) \<and> csvc (calls u ! i) = Some s
       \<and> ((cpc (calls u ! i) = SLocked \<or> cpc (calls u ! i) = SAlready)
              \<and> routines (svcs u ! s) = R
           \<or> cpc (calls u ! i) = Finished (Inr (Some AlreadyStarted)))"
  proof (cases "a = ACall i")
    case True
    then have "call_step i w = Next u" using u(1) by (simp add: step_def)
    then show ?thesis using Cons.prems(3-6)
      by (cases rule: call_step_cases) (auto simp: svc_nth_upd)
  next
    case False
    have nr: "a \<noteq> AUserRet i r" for r
    proof
      assume "a = AUserRet i r"
      then have "user_ret i r w = Next u" using u(1) by (simp add: step_def)
      then show False using Cons.prems(5) by (cases rule: user_ret_cases) auto
    qed
    note cf = calls_frame [OF u(1) i False nr]
    show ?thesis
    proof (cases "cpc (calls w ! i) = Finished (Inr (Some AlreadyStarted))")
      case True
      then show ?thesis using cf cs by simp
    next
      case F: False
      then have "holds w i s" using Cons.prems(5) i cs by (auto simp: holds_def holding_def)
      from routines_frame [OF inv u(1) this False nr]
      show ?thesis using cf cs Cons.prems(5) F by auto
    qed
  qed
  then show ?case
    using Cons.IH [OF world_inv_step [OF inv u(1)] u(2) _ _ _ Cons.prems(6)] by blast
qed

lemma step_SLocked_running:
  assumes "i < length (calls w)" and "csvc (calls w ! i) = Some s"
    and "cpc (calls w ! i) = SLocked" and "routines (svcs w ! s) \<noteq> NilRoutines"
  shows "step (ACall i) w = Next (set_cpc i SAlready w)"
    and "step (ACall i) (set_cpc i SAlready w)
           = Next (set_cpc i (Finished (Inr (Some AlreadyStarted))) (Unlock s w))"
proof -
  show "step (ACall i) w = Next (set_cpc i SAlready w)"
    using assms by (simp add: step_def call_step_def Let_def is_Start_pc_def Start_step_def)
  have "set_cpc i (Finished (Inr (Some AlreadyStarted))) (Unlock s (set_cpc i SAlready w))
      = set_cpc i (Finished (Inr (Some AlreadyStarted))) (Unlock s w)"
    using assms(1) by (simp add: set_cpc_def Unlock_def set_mut_def)
  then show "step (ACall i) (set_cpc i SAlready w)
           = Next (set_cpc i (Finished (Inr (Some AlreadyStarted))) (Unlock s w))"
    using assms
    by (simp add: step_def call_step_def Let_def is_Start_pc_def Start_step_def del: world_upd(17))
qed


















section \<open>The claims\<close>

text \<open>
  C1 (as stated): launching a task on a node increments the descendant-task counter of
  every strict ancestor of the node. This fails: with a root 0, its child 1 and its
  grandchild 2, node 0 is a strict ancestor of node 2, and the counter statements of
  \<^verbatim>\<open>Go\<close> on node 2 leave the \<^verbatim>\<open>children\<close> counter of node 0 at 1 (the
  propagation task of node 1), where the claim needs 2.
\<close>

theorem Go_skips_grandparent:
  "obind (run tree3 init) (\<lambda>w. obind (Go_enter (Some 2) (heap (pool w)))
      (\<lambda>h1. Next (spec_strict_ancestors (heap (pool w)) 2,
                   children (heap (pool w) 0), children (h1 0))))
   = Next ([1, 0], 1, 1)"
  by code_simp

text \<open>
  C1 (amended): on a non-nil node \<open>a\<close>, the counter statements of \<^verbatim>\<open>Go\<close> never
  panic; they add one to the \<^verbatim>\<open>waitgroup\<close> counter of \<open>a\<close> and one to the
  \<^verbatim>\<open>children\<close> counter of the immediate parent of \<open>a\<close> (if it has one) and change
  no other counter, channel or parent pointer; the deferred calls that run when the
  launched function is over undo exactly these increments.
\<close>

theorem Go_counts_node_and_parent_only:
  "\<exists>h1. Go_enter (Some a) h = Next h1
      \<and> (\<forall>x. waitgroup (h1 x) = waitgroup (h x) + (if x = a then 1 else 0)
            \<and> children (h1 x) = children (h x) + (if parent (h a) = Some x then 1 else 0)
            \<and> doneCh (h1 x) = doneCh (h x) \<and> parent (h1 x) = parent (h x))
      \<and> Go_exit (Some a) h1 = Next h"
proof -
  obtain h1 where h1: "Go_enter (Some a) h = Next h1"
    using Go_enter_total by blast
  show ?thesis
    using h1 Go_enter_fields [OF h1] Go_exit_enter [OF h1] by simp
qed

text \<open>
  C4: \<^verbatim>\<open>Stop\<close> never panics and never blocks, and calling it \<open>n \<ge> 1\<close> times on a
  node leaves the heap exactly as one call does. A \<^verbatim>\<open>Stop\<close> is a single atomic
  statement (\<^verbatim>\<open>close\<close> under \<^verbatim>\<open>recover\<close>), so racing calls are calls in some order.
\<close>

theorem Stop_idempotent:
  "1 \<le> n \<Longrightarrow> (\<exists>h'. Stop me h = Next h' \<and> Stop_times n me h = Next h')"
proof -
  assume n: "1 \<le> n"
  obtain h' where h': "Stop me h = Next h'" using Stop_total by blast
  have again: "Stop me h' = Next h'" using Stop_twice [of me h] h' by simp
  obtain k where k: "n = Suc k" using n by (cases n) auto
  have "Stop_times n me h = Stop_times k me h'" using h' k by simp
  also have "\<dots> = Next h'" using again by (rule Stop_times_fix)
  finally show ?thesis using h' by blast
qed

theorem Stop_idempotent_witness:
  "(1::nat) \<le> 3 \<and> (\<exists>h'. Stop (Some 0) (heap (pool init)) = Next h'
       \<and> Stop_times 3 (Some 0) (heap (pool init)) = Next h')"
  using Stop_idempotent [of 3 "Some 0" "heap (pool init)"] by simp

text \<open>
  C6 (as stated): every operation on an absent node is safe, and \<^verbatim>\<open>Child\<close> on an
  absent node yields an absent node. This fails for the node that \<^verbatim>\<open>Child\<close> yields:
  on a nil \<^verbatim>\<open>*routines\<close> it returns the nil \<^verbatim>\<open>Routines\<close> interface value, and
  a call of \<^verbatim>\<open>Done\<close>, \<^verbatim>\<open>Child\<close>, \<^verbatim>\<open>Go\<close>, \<^verbatim>\<open>Stop\<close> or \<^verbatim>\<open>Wait\<close>
  on that value panics with a nil dereference.
\<close>

theorem nil_interface_operations_panic:
  "Child None (pool init) = Next (NilRoutines, pool init)
   \<and> iface NilRoutines (\<lambda>r. Next (Done r)) = Fault NilDereference
   \<and> iface NilRoutines (\<lambda>r. Child r (pool init)) = Fault NilDereference
   \<and> iface NilRoutines (\<lambda>r. Go r UserFn (pool init)) = Fault NilDereference
   \<and> iface NilRoutines (\<lambda>r. Stop r (heap (pool init))) = Fault NilDereference
   \<and> iface NilRoutines (\<lambda>r. Next (Wait_call r)) = Fault NilDereference"
  by (simp add: Child_def iface_def)

text \<open>
  C6 (amended): on a nil \<^verbatim>\<open>*routines\<close> pointer (also when it is held in a
  \<^verbatim>\<open>Routines\<close> interface value), \<^verbatim>\<open>Done\<close> returns the nil channel, on which a
  receive is never ready whatever the heap; \<^verbatim>\<open>Child\<close> changes nothing and returns
  the nil interface value; \<^verbatim>\<open>Go\<close> launches nothing and changes no counter;
  \<^verbatim>\<open>Stop\<close> changes nothing; \<^verbatim>\<open>Wait\<close> returns at once. None of them panics or
  blocks. The nil interface value that \<^verbatim>\<open>Child\<close> returns is not such a receiver:
  any method call on it panics.
\<close>

theorem nil_pointer_safety:
  "Done None = NilChan \<and> (\<forall>h. \<not> recv_ready h (Done None))
   \<and> Child None p = Next (NilRoutines, p)
   \<and> Go None fn p = Next p \<and> Go_enter None h = Next h \<and> Go_exit None h = Next h
   \<and> Stop None h = Next h
   \<and> Wait_call None = WReturned None
   \<and> iface (Impl None) (\<lambda>r. Next (Done r)) = Next NilChan
   \<and> iface (Impl None) (\<lambda>r. Child r p) = Next (NilRoutines, p)
   \<and> iface (Impl None) (\<lambda>r. Go r fn p) = Next p
   \<and> iface (Impl None) (\<lambda>r. Stop r h) = Next h
   \<and> iface (Impl None) (\<lambda>r. Next (Wait_call r)) = Next (WReturned None)
   \<and> step (AChild None) w = Next w \<and> step (AGo None) w = Next w
   \<and> step (AStop None) w = Next w
   \<and> step (AWait None) w = Next (w\<lparr>waits := waits w @ [WReturned None]\<rparr>)
   \<and> iface NilRoutines m = Fault NilDereference"
  by (simp add: Done_def recv_ready_def Child_def Go_def Go_enter_def Go_exit_def
      Wait_call_def step_def valid_ref_def with_pool_def set_heap_def iface_def)

text \<open>
  C10: a call of \<^verbatim>\<open>Stop\<close> on a nil service is over after its receiver check, with no
  panic and no error, and leaves every node, service and other call as it was; a call of
  \<^verbatim>\<open>Start\<close> on a nil service returns the \<^verbatim>\<open>NilReceiver\<close> error, also without
  touching anything.
\<close>

theorem nil_service_Stop_silent_Start_reports:
  "run [AStopService None, ACall (length (calls w))] w
     = Next (w\<lparr>calls := calls w @ [\<lparr>csvc = None, carg = NilRoutines, cpc = Finished (Inr None)\<rparr>]\<rparr>)
   \<and> run [AStart None NilRoutines, ACall (length (calls w))] w
     = Next (w\<lparr>calls := calls w @
          [\<lparr>csvc = None, carg = NilRoutines, cpc = Finished (Inr (Some NilReceiver))\<rparr>]\<rparr>)"
  by (simp add: step_def valid_svc_def valid_arg_def call_step_def set_cpc_def)

text \<open>
  C2 (amended): in every reachable state, the first phase of a \<^verbatim>\<open>Wait\<close> on node
  \<open>n\<close> can complete exactly when no task launched on a direct child of \<open>n\<close> is between
  its \<^verbatim>\<open>childrenUp\<close> and its \<^verbatim>\<open>childrenDown\<close> (so none is executing its
  function), and it then moves to the second phase; the second phase can complete exactly
  when every task launched on \<open>n\<close> itself has exited, and \<^verbatim>\<open>Wait\<close> then returns.
\<close>

theorem Wait_covers_node_and_children_at_phase_end:
  assumes "reachable w" and "i < length (waits w)"
  shows "(waits w ! i = WChildren n \<longrightarrow>
            ((\<exists>w'. step (AWaiter i) w = Next w') \<longleftrightarrow>
               (\<forall>t\<in>set (tasks (pool w)).
                   parent (heap (pool w) (tnode t)) = Some n \<longrightarrow> \<not> counted (tpc t)))
          \<and> (\<forall>w'. step (AWaiter i) w = Next w' \<longrightarrow> waits w' ! i = WOwn n))
       \<and> (waits w ! i = WOwn n \<longrightarrow>
            ((\<exists>w'. step (AWaiter i) w = Next w') \<longleftrightarrow>
               (\<forall>t\<in>set (tasks (pool w)). tnode t = n \<longrightarrow> tpc t = GExit))
          \<and> (\<forall>w'. step (AWaiter i) w = Next w' \<longrightarrow> waits w' ! i = WReturned (Some n)))"
proof -
  note I = pool_invD [OF world_invD(1) [OF reachable_inv [OF assms(1)]]]
  have ok: "wpc_ok (pool w) (waits w ! i)"
    using reachable_waits_ok [OF assms(1)] assms(2) by (simp add: waits_ok_def)
  show ?thesis
  proof (intro conjI impI)
    assume q: "waits w ! i = WChildren n"
    then have n: "n < nxt (pool w)" using ok by (simp add: wpc_ok_def)
    have "children (heap (pool w) n) = 0 \<longleftrightarrow>
        (\<forall>t\<in>set (tasks (pool w)). parent (heap (pool w) (tnode t)) = Some n \<longrightarrow> \<not> counted (tpc t))"
      using I(5) [OF n] child_count_0 [of "pool w" n] by simp
    then show "(\<exists>w'. step (AWaiter i) w = Next w') \<longleftrightarrow>
        (\<forall>t\<in>set (tasks (pool w)). parent (heap (pool w) (tnode t)) = Some n \<longrightarrow> \<not> counted (tpc t))"
      unfolding waiter_step [OF assms(2)] wait_step_Next q by auto
    show "\<forall>w'. step (AWaiter i) w = Next w' \<longrightarrow> waits w' ! i = WOwn n"
      unfolding waiter_step [OF assms(2)] wait_step_Next q using assms(2) by auto
  next
    assume q: "waits w ! i = WOwn n"
    then have n: "n < nxt (pool w)" using ok by (simp add: wpc_ok_def)
    have "waitgroup (heap (pool w) n) = 0 \<longleftrightarrow>
        (\<forall>t\<in>set (tasks (pool w)). tnode t = n \<longrightarrow> tpc t = GExit)"
      using I(4) [OF n] own_count_0 [of "pool w" n] by simp
    then show "(\<exists>w'. step (AWaiter i) w = Next w') \<longleftrightarrow>
        (\<forall>t\<in>set (tasks (pool w)). tnode t = n \<longrightarrow> tpc t = GExit)"
      unfolding waiter_step [OF assms(2)] wait_step_Next q by auto
    show "\<forall>w'. step (AWaiter i) w = Next w' \<longrightarrow> waits w' ! i = WReturned (Some n)"
      unfolding waiter_step [OF assms(2)] wait_step_Next q using assms(2) by auto
  qed
qed

text \<open>
  C3: whenever a \<^verbatim>\<open>Wait\<close> on a node \<open>n\<close> has returned, the execution passed first
  through a state in which the call was in its first phase, the \<^verbatim>\<open>children\<close> counter
  of \<open>n\<close> was zero and the call moved to its second phase, and only later through a
  state in which the call was in its second phase, the \<^verbatim>\<open>waitgroup\<close> counter of \<open>n\<close>
  was zero and the call returned. (Each phase is blocked while its counter is not zero:
  \<open>wait_step\<close>.)
\<close>

theorem Wait_children_then_own:
  assumes "reachable w" and "i < length (waits w)" and "waits w ! i = WReturned (Some n)"
  shows "\<exists>w1 w1' w2 w2'. reachable w1 \<and> waits w1 ! i = WChildren n
               \<and> children (heap (pool w1) n) = 0
               \<and> step (AWaiter i) w1 = Next w1' \<and> waits w1' ! i = WOwn n \<and> reaches w1' w2
               \<and> waits w2 ! i = WOwn n \<and> waitgroup (heap (pool w2) n) = 0
               \<and> step (AWaiter i) w2 = Next w2' \<and> reaches w2' w"
  using wait_history [OF assms(1,2), of n] assms(3) by blast

text \<open>
  C2 (as stated): \<^verbatim>\<open>Wait\<close> on a node does not return while a task launched on the
  node or on any descendant is executing. This fails twice. First run: root 0, child 1,
  grandchild 2 with a running task; node 1 is stopped, its propagation task exits, and
  \<^verbatim>\<open>Wait\<close> on the root returns while the task on node 2 is at \<open>GRun\<close>. Second run:
  root 0 with an own task and child 1; after the first phase of \<^verbatim>\<open>Wait\<close> on the root
  a task is launched on node 1, the own task ends, and \<^verbatim>\<open>Wait\<close> returns
  while the task on the direct child is at \<open>GRun\<close>.
\<close>

theorem Wait_returns_while_descendant_task_runs: "obind (run grandchild_run init)
      (\<lambda>w. Next (waits w ! 0, show_task (tasks (pool w) ! 2),
                 spec_strict_ancestors (heap (pool w)) 2))
     = Next (WReturned (Some 0), (2, UserFn, GRun), [1, 0])
   \<and> obind (run late_child_task_run init)
      (\<lambda>w. Next (waits w ! 0, show_task (tasks (pool w) ! 2), parent (heap (pool w) 1)))
     = Next (WReturned (Some 0), (1, UserFn, GRun), Some 0)"
  by code_simp

theorem Wait_covers_node_and_children_at_phase_end_witness:
  "reachable (result_of (run blocked_wait_run init))
   \<and> 0 < length (waits (result_of (run blocked_wait_run init)))
   \<and> waits (result_of (run blocked_wait_run init)) ! 0 = WChildren 0
   \<and> ((\<exists>w'. step (AWaiter 0) (result_of (run blocked_wait_run init)) = Next w')
        = (\<forall>t\<in>set (tasks (pool (result_of (run blocked_wait_run init)))).
             parent (heap (pool (result_of (run blocked_wait_run init))) (tnode t)) = Some 0
               \<longrightarrow> \<not> counted (tpc t)))"
proof -
  let ?W = "result_of (run blocked_wait_run init)"
  have c: "completes (run blocked_wait_run init)" by code_simp
  have r: "reachable ?W" using c by (rule reachable_result)
  have l: "0 < length (waits ?W)" by code_simp
  have q: "waits ?W ! 0 = WChildren 0" by code_simp
  show ?thesis
    using Wait_covers_node_and_children_at_phase_end [OF r l, of 0] r l q by blast
qed

theorem Wait_children_then_own_witness:
  "reachable (result_of (run idle_wait_run init))
   \<and> 0 < length (waits (result_of (run idle_wait_run init)))
   \<and> waits (result_of (run idle_wait_run init)) ! 0 = WReturned (Some 0)
   \<and> (\<exists>w1 w1' w2 w2'. reachable w1 \<and> waits w1 ! 0 = WChildren 0
         \<and> children (heap (pool w1) 0) = 0
         \<and> step (AWaiter 0) w1 = Next w1' \<and> waits w1' ! 0 = WOwn 0 \<and> reaches w1' w2
         \<and> waits w2 ! 0 = WOwn 0 \<and> waitgroup (heap (pool w2) 0) = 0
         \<and> step (AWaiter 0) w2 = Next w2'
         \<and> reaches w2' (result_of (run idle_wait_run init)))"
proof -
  let ?W = "result_of (run idle_wait_run init)"
  have c: "completes (run idle_wait_run init)" by code_simp
  have r: "reachable ?W" using c by (rule reachable_result)
  have l: "0 < length (waits ?W)" by code_simp
  have q: "waits ?W ! 0 = WReturned (Some 0)" by code_simp
  show ?thesis
    using Wait_children_then_own [OF r l q] r l q by blast
qed

text \<open>
  C5: let task \<open>k\<close> be the propagation task that \<^verbatim>\<open>Child\<close> launched for child \<open>c\<close> of
  node \<open>r\<close>. Then \<open>r\<close> is the parent of \<open>c\<close>. Once \<open>r\<close> is stopped (its channel closed,
  which no later step undoes), the channel of \<open>c\<close> is closed after at most four steps of
  the propagation task itself, each of which it can take whatever the other threads do;
  so under any scheduler that lets the task run, \<^verbatim>\<open>Done\<close> of \<open>c\<close> becomes ready.
  When \<open>r\<close> is a root, no execution without a \<^verbatim>\<open>Stop\<close> call on \<open>r\<close> itself changes
  the channel of \<open>r\<close>: stopping \<open>c\<close>, or anything else, never makes \<^verbatim>\<open>Done\<close> of \<open>r\<close>
  ready. In every execution the propagation task runs \<^verbatim>\<open>child.Stop()\<close> at most once.
\<close>

theorem propagation_is_downward_and_single:
  assumes "reachable w" and "k < length (tasks (pool w))"
    and "tbody (tasks (pool w) ! k) = Propagate r c"
  shows "parent (heap (pool w) c) = Some r
    \<and> (doneCh (heap (pool w) r) = Closed \<longrightarrow>
          (\<exists>n\<le>4. \<exists>w'. drive n k w = Next w' \<and> doneCh (heap (pool w') c) = Closed))
    \<and> (\<forall>as w'. run as w = Next w' \<longrightarrow>
          (doneCh (heap (pool w) r) = Closed \<longrightarrow> doneCh (heap (pool w') r) = Closed)
        \<and> (doneCh (heap (pool w) c) = Closed \<longrightarrow> doneCh (heap (pool w') c) = Closed)
        \<and> (parent (heap (pool w) r) = None \<and> AStop (Some r) \<notin> set as \<longrightarrow>
              doneCh (heap (pool w') r) = doneCh (heap (pool w) r)))
    \<and> (\<forall>as. forwards k as w \<le> 1)"
proof -
  note inv = reachable_inv [OF assms(1)]
  note F = prop_task_facts [OF inv assms(2,3)]
  have r: "r < nxt (pool w)" using F(2,3) by simp
  have 1: "doneCh (heap (pool w) r) = Closed \<Longrightarrow>
      \<exists>n\<le>4. \<exists>w'. drive n k w = Next w' \<and> doneCh (heap (pool w') c) = Closed"
    using drive_closes [OF inv assms(2,3), of 4] by simp
  have 2: "doneCh (heap (pool w') a) = Closed"
    if "run as w = Next w'" "doneCh (heap (pool w) a) = Closed" "a < nxt (pool w)" for as w' a
    using run_pool_le [OF inv that(1)] that(2,3) by (auto simp: pool_le_def)
  have 3: "doneCh (heap (pool w') r) = doneCh (heap (pool w) r)"
    if "run as w = Next w'" "parent (heap (pool w) r) = None" "AStop (Some r) \<notin> set as" for as w'
    using run_root [OF inv that(1) r that(2,3)] .
  show ?thesis using F(1) 1 2 [OF _ _ r] 2 [OF _ _ F(2)] 3 forwards_le_1 [OF inv] by blast
qed

theorem propagation_is_downward_and_single_witness:
  "reachable (result_of (run stopped_root_run init))
   \<and> 0 < length (tasks (pool (result_of (run stopped_root_run init))))
   \<and> tbody (tasks (pool (result_of (run stopped_root_run init))) ! 0) = Propagate 0 1
   \<and> doneCh (heap (pool (result_of (run stopped_root_run init))) 0) = Closed
   \<and> doneCh (heap (pool (result_of (run stopped_root_run init))) 1) = Open
   \<and> parent (heap (pool (result_of (run stopped_root_run init))) 1) = Some 0
   \<and> (\<exists>n\<le>4. \<exists>w'. drive n 0 (result_of (run stopped_root_run init)) = Next w'
          \<and> doneCh (heap (pool w') 1) = Closed)
   \<and> forwards 0 [ASelect 0 True, ATask 0, ATask 0] (result_of (run stopped_root_run init)) \<le> 1"
proof -
  let ?W = "result_of (run stopped_root_run init)"
  have c: "completes (run stopped_root_run init)" by code_simp
  have r: "reachable ?W" using c by (rule reachable_result)
  have l: "0 < length (tasks (pool ?W))" by code_simp
  have b: "tbody (tasks (pool ?W) ! 0) = Propagate 0 1" by code_simp
  have d: "doneCh (heap (pool ?W) 0) = Closed" by code_simp
  have e: "doneCh (heap (pool ?W) 1) = Open" by code_simp
  show ?thesis
    using propagation_is_downward_and_single [OF r l b] r l b d e by blast
qed

text \<open>
  C7: let a call of \<^verbatim>\<open>Start\<close> hold the mutex and stand before the test
  \<^verbatim>\<open>me.routines != nil\<close> on a service that is running. Its next statement only moves
  it to the return of \<^verbatim>\<open>AlreadyStarted\<close>, and the one after only releases the mutex
  and returns that error: the nodes, the tasks, the waits, the \<^verbatim>\<open>start\<close> and
  \<^verbatim>\<open>routines\<close> fields and all other calls are as before, so no child is created and
  the start function is not called. Whatever the other threads do meanwhile, the call
  is only ever before the test, at the return, or returned with \<^verbatim>\<open>AlreadyStarted\<close>,
  and until it has returned the active node of the service stays the same.
\<close>

theorem Start_on_running_service_only_fails:
  assumes "reachable w" and "i < length (calls w)" and "csvc (calls w ! i) = Some s"
    and "cpc (calls w ! i) = SLocked" and "routines (svcs w ! s) \<noteq> NilRoutines"
  shows "step (ACall i) w = Next (set_cpc i SAlready w)
    \<and> step (ACall i) (set_cpc i SAlready w)
         = Next (set_cpc i (Finished (Inr (Some AlreadyStarted))) (Unlock s w))
    \<and> pool (set_cpc i (Finished (Inr (Some AlreadyStarted))) (Unlock s w)) = pool w
    \<and> waits (set_cpc i (Finished (Inr (Some AlreadyStarted))) (Unlock s w)) = waits w
    \<and> routines (svcs (set_cpc i (Finished (Inr (Some AlreadyStarted))) (Unlock s w)) ! s)
         = routines (svcs w ! s)
    \<and> (\<forall>as w'. run as w = Next w' \<longrightarrow>
          (cpc (calls w' ! i) = SLocked \<or> cpc (calls w' ! i) = SAlready)
             \<and> routines (svcs w' ! s) = routines (svcs w ! s)
          \<or> cpc (calls w' ! i) = Finished (Inr (Some AlreadyStarted)))"
proof -
  note inv = reachable_inv [OF assms(1)]
  have "(cpc (calls w' ! i) = SLocked \<or> cpc (calls w' ! i) = SAlready)
             \<and> routines (svcs w' ! s) = routines (svcs w ! s)
          \<or> cpc (calls w' ! i) = Finished (Inr (Some AlreadyStarted))"
    if "run as w = Next w'" for as w'
    using already_started_run [OF inv that assms(2,3) _ assms(5)] assms(4) by simp
  then show ?thesis
    using step_SLocked_running [OF assms(2-5)] by (simp add: svc_nth_upd)
qed

theorem Start_on_running_service_only_fails_witness:
  "reachable (result_of (run second_start_run init))
   \<and> 1 < length (calls (result_of (run second_start_run init)))
   \<and> csvc (calls (result_of (run second_start_run init)) ! 1) = Some 0
   \<and> cpc (calls (result_of (run second_start_run init)) ! 1) = SLocked
   \<and> routines (svcs (result_of (run second_start_run init)) ! 0) = Impl (Some 1)
   \<and> step (ACall 1) (result_of (run second_start_run init))
        = Next (set_cpc 1 SAlready (result_of (run second_start_run init)))
   \<and> step (ACall 1) (set_cpc 1 SAlready (result_of (run second_start_run init)))
        = Next (set_cpc 1 (Finished (Inr (Some AlreadyStarted)))
                  (Unlock 0 (result_of (run second_start_run init))))"
proof -
  let ?W = "result_of (run second_start_run init)"
  have c: "completes (run second_start_run init)" by code_simp
  have r: "reachable ?W" using c by (rule reachable_result)
  have l: "1 < length (calls ?W)" by code_simp
  have a: "csvc (calls ?W ! 1) = Some 0" by code_simp
  have b: "cpc (calls ?W ! 1) = SLocked" by code_simp
  have d: "routines (svcs ?W ! 0) = Impl (Some 1)" by code_simp
  then have e: "routines (svcs ?W ! 0) \<noteq> NilRoutines" by simp
  show ?thesis
    using Start_on_running_service_only_fails [OF r l a b e] r l a b d by blast
qed






end
